theory Spec2Isabelle
  imports Main "HOL-Library.Word" "HOL-Library.Log_Nat"
begin

unbundle bit_operations_syntax

section \<open>Platform primitives used by folly/Bits.h\<close>

text \<open>
  The header targets glibc on an LP64 machine: \<open>int\<close> and \<open>unsigned int\<close> are
  32 bits wide, \<open>long\<close>, \<open>long long\<close>, \<open>size_t\<close> and \<open>ssize_t\<close> are 64 bits wide.
  An integral value of width \<open>w\<close> is a \<open>w word\<close>; a signed and an unsigned value with
  the same bit pattern are the same word, and the conversions between them
  (\<open>static_cast\<close> to \<open>make_signed\<close> or \<open>make_unsigned\<close>) leave the word unchanged.
  Widening a signed value is \<open>scast\<close> (sign extension), widening an unsigned value is
  \<open>ucast\<close> (zero extension). Bit indices and bit counts lie between 0 and 64 and are
  natural numbers.
\<close>

text \<open>
  \<open>ffs\<close>, \<open>ffsl\<close> (glibc, string.h): the 1-based position of the least significant
  set bit of the argument, 0 when the argument is 0. \<open>ffs_scan n k x\<close> looks at the
  \<open>n\<close> bit positions from \<open>k\<close> upwards.
\<close>

fun ffs_scan :: "nat \<Rightarrow> nat \<Rightarrow> 'a::len word \<Rightarrow> nat" where
  "ffs_scan 0 k x = 0"
| "ffs_scan (Suc n) k x = (if bit x k then Suc k else ffs_scan n (Suc k) x)"

definition ffs :: "32 word \<Rightarrow> nat" where
  "ffs x = ffs_scan 32 0 x"

definition ffsl :: "64 word \<Rightarrow> nat" where
  "ffsl x = ffs_scan 64 0 x"

text \<open>
  \<open>__builtin_clz\<close>, \<open>__builtin_clzl\<close> (GCC): the number of leading zero bits of the
  argument; the result for 0 is undefined in C and is never requested by the header.
  \<open>clz_scan n x\<close> counts the zero bits below position \<open>n\<close>, downwards from \<open>n - 1\<close>.
\<close>

fun clz_scan :: "nat \<Rightarrow> 'a::len word \<Rightarrow> nat" where
  "clz_scan 0 x = 0"
| "clz_scan (Suc n) x = (if bit x n then 0 else Suc (clz_scan n x))"

definition builtin_clz :: "32 word \<Rightarrow> nat" where
  "builtin_clz x = clz_scan 32 x"

definition builtin_clzl :: "64 word \<Rightarrow> nat" where
  "builtin_clzl x = clz_scan 64 x"

section \<open>findFirstSet and findLastSet on scalars\<close>

text \<open>
  \<open>findFirstSet\<close> for a signed type: the overload is chosen by the number of value
  bits (\<open>digits\<close>, the width minus one); up to 31 digits the argument is converted to
  \<open>int\<close> and handed to \<open>ffs\<close>, up to 63 digits it is converted to \<open>long\<close> and handed
  to \<open>ffsl\<close>. No overload exists for wider types.
\<close>

definition findFirstSet_signed :: "'a::len word \<Rightarrow> nat" where
  "findFirstSet_signed x =
     (if LENGTH('a) - 1 \<le> 31 then ffs (scast x) else ffsl (scast x))"

text \<open>
  \<open>findFirstSet\<close> for an unsigned type: convert to the signed type of the same width,
  then call the signed overload.
\<close>

definition findFirstSet :: "'a::len word \<Rightarrow> nat" where
  "findFirstSet x = findFirstSet_signed x"

text \<open>\<open>detail::findLastSetPortable\<close>: the loop \<open>while (x >>= 1) ++r\<close>.\<close>

function findLastSetPortable_loop :: "64 word \<Rightarrow> nat \<Rightarrow> nat" where
  "findLastSetPortable_loop x r =
     (let x' = drop_bit 1 x in
      if x' \<noteq> 0 then findLastSetPortable_loop x' (r + 1) else r)"
  by pat_completeness auto
termination
proof (relation "measure (\<lambda>(x, r). unat x)")
  show "wf (measure (\<lambda>(x, r). unat x))" by simp
next
  fix x :: "64 word" and r :: nat and x' :: "64 word"
  assume "x' = drop_bit 1 x" and "x' \<noteq> 0"
  then have "x \<noteq> 0" by auto
  then have "unat x \<noteq> 0" by (simp add: unat_eq_0)
  then have "unat x div 2 < unat x" by simp
  then show "((x', r + 1), (x, r)) \<in> measure (\<lambda>(x, r). unat x)"
    using \<open>x' = drop_bit 1 x\<close> by (simp add: drop_bit_eq_div unat_div)
qed

declare findLastSetPortable_loop.simps [simp del]

definition findLastSetPortable :: "64 word \<Rightarrow> nat" where
  "findLastSetPortable x = findLastSetPortable_loop x (if x \<noteq> 0 then 1 else 0)"

text \<open>
  \<open>findLastSet\<close> for an unsigned type, GCC build: up to 32 digits the argument is
  widened to \<open>unsigned int\<close> and the result is \<open>32 - __builtin_clz(x)\<close>, up to 64
  digits it is \<open>64 - __builtin_clzl(x)\<close>; 0 for a zero argument.
\<close>

definition findLastSet :: "'a::len word \<Rightarrow> nat" where
  "findLastSet x =
     (if LENGTH('a) \<le> 32
      then (if x \<noteq> 0 then 8 * 4 - builtin_clz (ucast x) else 0)
      else (if x \<noteq> 0 then 8 * 8 - builtin_clzl (ucast x) else 0))"

text \<open>\<open>findLastSet\<close> for a signed type: convert to the unsigned type of the same width.\<close>

definition findLastSet_signed :: "'a::len word \<Rightarrow> nat" where
  "findLastSet_signed x = findLastSet x"

text \<open>
  The overload of \<open>findLastSet\<close> for builds without GCC intrinsics (Bits.h, lines 184
  to 191) has the body \<open>return detail:findLastSetPortable(x);\<close>, with a single colon
  after \<open>detail\<close>. That statement is ill-formed, the overload cannot be compiled, and it
  has no definition here.
\<close>

section \<open>nextPowTwo\<close>

text \<open>
  A shift whose count reaches the width of the (promoted) left operand is undefined in
  C++, and the header does not guard its shifts.

  In \<open>nextPowTwo\<close> the result of the shift \<open>1ul << k\<close> is the value returned. For
  \<open>k = 64\<close> a processor that takes the count modulo 64 gives 1 and a compiler that
  folds the shift gives 0, so the source fixes no value: \<open>shl_ul\<close> has no result
  (\<open>None\<close>) for counts of 64 and more.

  In \<open>detail::nextPowTwoPortable\<close> the result of an out-of-range shift is only OR-ed
  into \<open>v\<close>, and both the value a processor gives (the shift by the count modulo the
  operand width, here \<open>v\<close> itself) and the value of a folded shift (0) leave \<open>v\<close> as it
  is; \<open>shr\<close> takes the count modulo the operand width. \<open>promoted_width\<close> is the width
  in which a shift of a value of the block type is carried out: types narrower than
  \<open>int\<close> are promoted to \<open>int\<close>.
\<close>

definition shl_ul :: "64 word \<Rightarrow> nat \<Rightarrow> 64 word option" where
  "shl_ul x k = (if k < 64 then Some (push_bit k x) else None)"

definition promoted_width :: "'a::len word \<Rightarrow> nat" where
  "promoted_width v = (if LENGTH('a) \<le> 32 then 32 else 64)"

definition shr :: "'a::len word \<Rightarrow> nat \<Rightarrow> 'a word" where
  "shr v k = drop_bit (k mod promoted_width v) v"

text \<open>
  The body of the loop of \<open>detail::nextPowTwoPortable\<close>: eight statements
  \<open>v |= (v >> (i << s))\<close> for \<open>s = 0, ..., 7\<close>, with \<open>i\<close> a \<open>uint32_t\<close>.
\<close>

definition smear_step :: "32 word \<Rightarrow> 'a::len word \<Rightarrow> 'a word" where
  "smear_step i v0 =
     (let v1 = v0 OR shr v0 (unat i);
          v2 = v1 OR shr v1 (unat (push_bit 1 i));
          v3 = v2 OR shr v2 (unat (push_bit 2 i));
          v4 = v3 OR shr v3 (unat (push_bit 3 i));
          v5 = v4 OR shr v4 (unat (push_bit 4 i));
          v6 = v5 OR shr v5 (unat (push_bit 5 i));
          v7 = v6 OR shr v6 (unat (push_bit 6 i));
          v8 = v7 OR shr v7 (unat (push_bit 7 i))
      in v8)"

text \<open>
  The loop \<open>for (uint32_t i = 1; i < sizeof(T) * 8; i <<= 8)\<close>, entered with the
  current \<open>i\<close> and \<open>v\<close>. A result \<open>None\<close> stands for a loop that does not end.
\<close>

partial_function (option) smear_loop :: "32 word \<Rightarrow> 'a::len word \<Rightarrow> 'a word option" where
  "smear_loop i v =
     (if unat i < LENGTH('a) then smear_loop (push_bit 8 i) (smear_step i v) else Some v)"

definition nextPowTwoPortable :: "'a::len word \<Rightarrow> 'a word option" where
  "nextPowTwoPortable v =
     (if v = 0 then Some 1
      else case smear_loop 1 (v - 1) of None \<Rightarrow> None | Some v' \<Rightarrow> Some (v' + 1))"

text \<open>
  \<open>nextPowTwo\<close>, GCC build: \<open>1ul << findLastSet(v - 1)\<close>, converted to the argument's
  type; \<open>None\<close> where the shift is undefined. For a type narrower than \<open>int\<close> the
  difference \<open>v - 1\<close> is an \<open>int\<close> that is not negative (\<open>v\<close> is not 0 here), and
  \<open>findLastSet\<close> widens it to \<open>unsigned int\<close> as it would widen the value of the narrow
  type.
\<close>

definition nextPowTwo :: "'a::len word \<Rightarrow> 'a word option" where
  "nextPowTwo v =
     (if v = 0 then Some 1
      else case shl_ul 1 (findLastSet (v - 1)) of
             None \<Rightarrow> None
           | Some r \<Rightarrow> Some (ucast r))"


text \<open>
  The state of the smearing of \<open>w\<close> after some of the shifts: bit \<open>j\<close> of \<open>v\<close> is set
  exactly when one of the \<open>m\<close> bits of \<open>w\<close> from position \<open>j\<close> upwards is set.
\<close>

definition smeared :: "'a::len word \<Rightarrow> nat \<Rightarrow> 'a word \<Rightarrow> bool" where
  "smeared w m v \<longleftrightarrow> (\<forall>j. bit v j \<longleftrightarrow> (\<exists>d<m. bit w (j + d)))"

section \<open>Endian\<close>

text \<open>
  \<open>bswap_16\<close>, \<open>bswap_32\<close>, \<open>bswap_64\<close> (glibc, byteswap.h) reverse the order of the
  bytes of their argument. \<open>byte_reverse n x\<close> moves byte \<open>k\<close> of \<open>x\<close>, for each
  \<open>k < n\<close>, to byte \<open>n - 1 - k\<close> of the result.
\<close>

definition byte_at :: "nat \<Rightarrow> 'a::len word \<Rightarrow> 'a word" where
  "byte_at k x = take_bit 8 (drop_bit (8 * k) x)"

definition byte_reverse :: "nat \<Rightarrow> 'a::len word \<Rightarrow> 'a word" where
  "byte_reverse n x =
     fold (\<lambda>k acc. acc OR push_bit (8 * (n - 1 - k)) (byte_at k x)) [0..<n] 0"

definition bswap_16 :: "16 word \<Rightarrow> 16 word" where
  "bswap_16 x = byte_reverse 2 x"

definition bswap_32 :: "32 word \<Rightarrow> 32 word" where
  "bswap_32 x = byte_reverse 4 x"

definition bswap_64 :: "64 word \<Rightarrow> 64 word" where
  "bswap_64 x = byte_reverse 8 x"

text \<open>
  \<open>detail::EndianIntBase<T>::swap\<close>, specialised for the eight fixed-width types; the
  signed and the unsigned type of one width share a definition here.
\<close>

definition swap8 :: "8 word \<Rightarrow> 8 word" where
  "swap8 x = x"

definition swap16 :: "16 word \<Rightarrow> 16 word" where
  "swap16 x = bswap_16 x"

definition swap32 :: "32 word \<Rightarrow> 32 word" where
  "swap32 x = bswap_32 x"

definition swap64 :: "64 word \<Rightarrow> 64 word" where
  "swap64 x = bswap_64 x"

text \<open>
  The host byte order is fixed when the header is compiled (\<open>__BYTE_ORDER\<close>); it is a
  parameter here. \<open>detail::EndianInt<T>\<close> inherits \<open>swap\<close> from \<open>EndianIntBase<T>\<close>,
  passed as \<open>swp\<close>.
\<close>

datatype Order = LITTLE | BIG

definition EndianInt_big :: "Order \<Rightarrow> ('a \<Rightarrow> 'a) \<Rightarrow> 'a \<Rightarrow> 'a" where
  "EndianInt_big order swp x = (case order of LITTLE \<Rightarrow> swp x | BIG \<Rightarrow> x)"

definition EndianInt_little :: "Order \<Rightarrow> ('a \<Rightarrow> 'a) \<Rightarrow> 'a \<Rightarrow> 'a" where
  "EndianInt_little order swp x = (case order of LITTLE \<Rightarrow> x | BIG \<Rightarrow> swp x)"

text \<open>\<open>Endian::big\<close> and \<open>Endian::little\<close> at each width.\<close>

definition big8 :: "Order \<Rightarrow> 8 word \<Rightarrow> 8 word" where
  "big8 order x = EndianInt_big order swap8 x"

definition big16 :: "Order \<Rightarrow> 16 word \<Rightarrow> 16 word" where
  "big16 order x = EndianInt_big order swap16 x"

definition big32 :: "Order \<Rightarrow> 32 word \<Rightarrow> 32 word" where
  "big32 order x = EndianInt_big order swap32 x"

definition big64 :: "Order \<Rightarrow> 64 word \<Rightarrow> 64 word" where
  "big64 order x = EndianInt_big order swap64 x"

definition little8 :: "Order \<Rightarrow> 8 word \<Rightarrow> 8 word" where
  "little8 order x = EndianInt_little order swap8 x"

definition little16 :: "Order \<Rightarrow> 16 word \<Rightarrow> 16 word" where
  "little16 order x = EndianInt_little order swap16 x"

definition little32 :: "Order \<Rightarrow> 32 word \<Rightarrow> 32 word" where
  "little32 order x = EndianInt_little order swap32 x"

definition little64 :: "Order \<Rightarrow> 64 word \<Rightarrow> 64 word" where
  "little64 order x = EndianInt_little order swap64 x"

section \<open>BitIterator\<close>

text \<open>
  A \<open>BitIterator\<close> holds the base iterator and the member \<open>bitOffset_\<close>, an
  \<open>ssize_t\<close>. The base iterator is a random-access iterator into the sequence of
  blocks; it is the index of the block it points at, an integer, so that moving it
  by a signed number of blocks is addition. \<open>bitsPerBlock()\<close>, a \<open>size_t\<close>, is fixed
  by the block type and is the parameter \<open>bpb\<close> of the operations that use it.
  Where an \<open>ssize_t\<close> meets a \<open>size_t\<close> in an arithmetic operation or a comparison,
  C++ converts the signed operand to \<open>size_t\<close>: the operation is the unsigned one, on
  64-bit words.
\<close>

record BitIterator =
  base :: int
  bitOffset :: "64 word"

text \<open>The constructor; \<open>None\<close> stands for a failed \<open>assert\<close>.\<close>

definition mkBitIterator :: "64 word \<Rightarrow> int \<Rightarrow> 64 word \<Rightarrow> BitIterator option" where
  "mkBitIterator bpb iter off =
     (if off < bpb then Some \<lparr>base = iter, bitOffset = off\<rparr> else None)"

definition makeBitIterator :: "64 word \<Rightarrow> int \<Rightarrow> BitIterator option" where
  "makeBitIterator bpb iter = mkBitIterator bpb iter 0"

definition advanceToNextBlock :: "BitIterator \<Rightarrow> BitIterator" where
  "advanceToNextBlock it = \<lparr>base = base it + 1, bitOffset = 0\<rparr>"

definition advanceInBlock :: "64 word \<Rightarrow> 64 word \<Rightarrow> BitIterator \<Rightarrow> BitIterator option" where
  "advanceInBlock bpb n it =
     (let off = bitOffset it + n
      in if off < bpb then Some (it\<lparr>bitOffset := off\<rparr>) else None)"

text \<open>
  \<open>advance\<close>: \<open>n / bpb\<close> and \<open>n % bpb\<close> divide the \<open>ssize_t n\<close> by the \<open>size_t bpb\<close>, which
  is the unsigned division of the 64-bit words; the quotient is stored in the \<open>ssize_t
  blocks\<close> and added to the base iterator as a signed number.
\<close>

definition advance :: "64 word \<Rightarrow> 64 word \<Rightarrow> BitIterator \<Rightarrow> BitIterator" where
  "advance bpb n it =
     (let blocks = n div bpb;
          off = bitOffset it + n mod bpb
      in if off \<ge> bpb
         then \<lparr>base = base it + sint (blocks + 1), bitOffset = off - bpb\<rparr>
         else \<lparr>base = base it + sint blocks, bitOffset = off\<rparr>)"

definition increment :: "64 word \<Rightarrow> BitIterator \<Rightarrow> BitIterator" where
  "increment bpb it =
     (let it' = it\<lparr>bitOffset := bitOffset it + 1\<rparr>
      in if bitOffset it' = bpb then advanceToNextBlock it' else it')"

definition decrement :: "64 word \<Rightarrow> BitIterator \<Rightarrow> BitIterator" where
  "decrement bpb it =
     (if bitOffset it = 0
      then \<lparr>base = base it - 1, bitOffset = bpb - 1\<rparr>
      else it\<lparr>bitOffset := bitOffset it - 1\<rparr>)"

text \<open>\<open>n\<close> times \<open>operator++\<close>, and \<open>n\<close> times \<open>operator--\<close>.\<close>

fun increments :: "nat \<Rightarrow> 64 word \<Rightarrow> BitIterator \<Rightarrow> BitIterator" where
  "increments 0 bpb it = it"
| "increments (Suc n) bpb it = increments n bpb (increment bpb it)"

fun decrements :: "nat \<Rightarrow> 64 word \<Rightarrow> BitIterator \<Rightarrow> BitIterator" where
  "decrements 0 bpb it = it"
| "decrements (Suc n) bpb it = decrements n bpb (decrement bpb it)"

text \<open>
  The invariant of a \<open>BitIterator\<close>: the signed member \<open>bitOffset_\<close> is at least 0 and
  less than \<open>bitsPerBlock()\<close>.
\<close>

definition offset_ok :: "64 word \<Rightarrow> BitIterator \<Rightarrow> bool" where
  "offset_ok bpb it \<longleftrightarrow> 0 \<le> sint (bitOffset it) \<and> sint (bitOffset it) < uint bpb"

section \<open>findFirstSet on a range of bits\<close>

text \<open>
  The blocks are a list; reading the block under a base iterator that does not point
  into the list has no defined result (\<open>None\<close>).
\<close>

definition deref :: "'a list \<Rightarrow> int \<Rightarrow> 'a option" where
  "deref bs i = (if 0 \<le> i \<and> i < int (length bs) then Some (bs ! nat i) else None)"

text \<open>
  The two occurrences of the block ending in \<open>return begin\<close>: \<open>firstSet\<close> is the
  1-based result of the scalar \<open>findFirstSet\<close>, made 0-based, checked by the \<open>assert\<close>
  and reached with \<open>advanceInBlock\<close>.
\<close>

definition found_at :: "64 word \<Rightarrow> BitIterator \<Rightarrow> nat \<Rightarrow> BitIterator option" where
  "found_at bpb beginIt firstSet =
     (let firstSet' = (of_nat firstSet :: 64 word) - 1
      in if firstSet' \<ge> bitOffset beginIt
         then advanceInBlock bpb (firstSet' - bitOffset beginIt) beginIt
         else None)"

text \<open>
  \<open>~((one << begin.bitOffset()) - 1)\<close> and \<open>(one << end.bitOffset()) - 1\<close>, in the block
  type. For a block type narrower than \<open>int\<close> the source computes the masks in \<open>int\<close> and
  the assignment \<open>v &= ...\<close> cuts the result down to the block type, which gives the
  same bits.
\<close>

definition mask_from :: "64 word \<Rightarrow> 'a::len word" where
  "mask_from off = NOT (push_bit (unat off) 1 - 1)"

definition mask_below :: "64 word \<Rightarrow> 'a::len word" where
  "mask_below off = push_bit (unat off) 1 - 1"

function findFirstSet_range ::
  "'a::len word list \<Rightarrow> BitIterator \<Rightarrow> BitIterator \<Rightarrow> BitIterator option" where
  "findFirstSet_range bs beginIt endIt =
     (if base beginIt \<noteq> base endIt then
        (case deref bs (base beginIt) of
           None \<Rightarrow> None
         | Some v0 \<Rightarrow>
             let v = v0 AND mask_from (bitOffset beginIt);
                 firstSet = findFirstSet v
             in if firstSet \<noteq> 0 then found_at (of_nat LENGTH('a)) beginIt firstSet
                else findFirstSet_range bs (advanceToNextBlock beginIt) endIt)
      else if bitOffset endIt \<noteq> 0 then
        (case deref bs (base beginIt) of
           None \<Rightarrow> None
         | Some v0 \<Rightarrow>
             let v = v0 AND mask_from (bitOffset beginIt);
                 v' = v AND mask_below (bitOffset endIt);
                 firstSet = findFirstSet v'
             in if firstSet \<noteq> 0 then found_at (of_nat LENGTH('a)) beginIt firstSet
                else Some endIt)
      else Some endIt)"
  by pat_completeness auto
termination
proof (relation "measure (\<lambda>(bs, beginIt, endIt). nat (int (length bs) - base beginIt))")
  show "wf (measure (\<lambda>(bs :: 'a word list, beginIt, endIt). nat (int (length bs) - base beginIt)))"
    by simp
next
  fix bs :: "'a word list" and beginIt endIt :: BitIterator and v0 :: "'a word"
  assume "deref bs (base beginIt) = Some v0"
  then have "base beginIt < int (length bs)"
    by (simp add: deref_def split: if_splits)
  then show "((bs, advanceToNextBlock beginIt, endIt), (bs, beginIt, endIt))
      \<in> measure (\<lambda>(bs, beginIt, endIt). nat (int (length bs) - base beginIt))"
    by (simp add: advanceToNextBlock_def)
qed

declare findFirstSet_range.simps [simp del]

text \<open>
  Global bit positions: with blocks of \<open>w\<close> bits, an iterator at block \<open>b\<close> and offset
  \<open>o\<close> denotes bit \<open>b * w + o\<close> of the sequence, and \<open>bit_at bs p\<close> tells whether bit
  \<open>p\<close> of the sequence \<open>bs\<close> is set.
\<close>

definition bit_position :: "nat \<Rightarrow> BitIterator \<Rightarrow> int" where
  "bit_position w it = base it * int w + uint (bitOffset it)"

definition bit_at :: "'a::len word list \<Rightarrow> int \<Rightarrow> bool" where
  "bit_at bs p \<longleftrightarrow>
     0 \<le> p \<and> p < int (length bs) * int LENGTH('a) \<and>
     bit (bs ! nat (p div int LENGTH('a))) (nat (p mod int LENGTH('a)))"

text \<open>
  What the ranged \<open>findFirstSet\<close> is to return for the range from \<open>beginIt\<close> to
  \<open>endIt\<close>: when some bit of the range is set, an iterator inside the range at a set
  bit with no set bit of the range before it; \<open>endIt\<close> otherwise.
\<close>

definition first_set_in ::
  "'a::len word list \<Rightarrow> BitIterator \<Rightarrow> BitIterator \<Rightarrow> BitIterator \<Rightarrow> bool" where
  "first_set_in bs beginIt endIt r \<longleftrightarrow>
     (if \<exists>p. bit_position LENGTH('a) beginIt \<le> p \<and> p < bit_position LENGTH('a) endIt \<and>
              bit_at bs p
      then offset_ok (of_nat LENGTH('a)) r \<and>
           bit_position LENGTH('a) beginIt \<le> bit_position LENGTH('a) r \<and>
           bit_position LENGTH('a) r < bit_position LENGTH('a) endIt \<and>
           bit_at bs (bit_position LENGTH('a) r) \<and>
           (\<forall>p. bit_position LENGTH('a) beginIt \<le> p \<and> p < bit_position LENGTH('a) r \<longrightarrow>
                \<not> bit_at bs p)
      else r = endIt)"

section \<open>Properties of findFirstSet on scalars\<close>

lemma ffs_scan_zero_iff:
  "ffs_scan n k x = 0 \<longleftrightarrow> (\<forall>i. k \<le> i \<and> i < k + n \<longrightarrow> \<not> bit x i)"
proof (induction n arbitrary: k)
  case 0
  then show ?case by auto
next
  case (Suc n)
  show ?case
  proof (cases "bit x k")
    case True
    then show ?thesis by auto
  next
    case False
    have "(\<forall>i. k \<le> i \<and> i < k + Suc n \<longrightarrow> \<not> bit x i) \<longleftrightarrow>
          (\<forall>i. Suc k \<le> i \<and> i < Suc k + n \<longrightarrow> \<not> bit x i)"
      using False by (metis Suc_leI add_Suc_right add_Suc_shift le_neq_implies_less Suc_leD)
    with False Suc.IH [of "Suc k"] show ?thesis by simp
  qed
qed

lemma ffs_scan_Suc_iff:
  "ffs_scan n k x = Suc j \<longleftrightarrow>
     k \<le> j \<and> j < k + n \<and> bit x j \<and> (\<forall>i. k \<le> i \<and> i < j \<longrightarrow> \<not> bit x i)"
proof (induction n arbitrary: k)
  case 0
  then show ?case by simp
next
  case (Suc n)
  show ?case
  proof (cases "bit x k")
    case True
    then show ?thesis
      by auto
  next
    case False
    have "(k \<le> j \<and> j < k + Suc n \<and> bit x j \<and> (\<forall>i. k \<le> i \<and> i < j \<longrightarrow> \<not> bit x i)) \<longleftrightarrow>
          (Suc k \<le> j \<and> j < Suc k + n \<and> bit x j \<and> (\<forall>i. Suc k \<le> i \<and> i < j \<longrightarrow> \<not> bit x i))"
      using False
      by (metis Suc_leI add_Suc_right add_Suc_shift le_neq_implies_less Suc_leD)
    with False Suc.IH [of "Suc k"] show ?thesis by simp
  qed
qed


lemma findFirstSet_signed_char:
  fixes x :: "'a::len word"
  assumes "LENGTH('a) \<le> 64"
  shows "findFirstSet_signed x = Suc j \<longleftrightarrow> bit x j \<and> (\<forall>i<j. \<not> bit x i)"
proof (cases "LENGTH('a) - 1 \<le> 31")
  case True
  then have le: "LENGTH('a) \<le> 32" by simp
  have low: "bit (scast x :: 32 word) i \<longleftrightarrow> bit x i" if "i < LENGTH('a)" for i
    using that le by (auto simp: bit_word_scast_iff)
  show ?thesis
  proof
    assume "findFirstSet_signed x = Suc j"
    then have s: "j < 32" "bit (scast x :: 32 word) j" "\<forall>i<j. \<not> bit (scast x :: 32 word) i"
      using True by (simp_all add: findFirstSet_signed_def ffs_def ffs_scan_Suc_iff)
    have "j < LENGTH('a)"
    proof (rule ccontr)
      assume "\<not> j < LENGTH('a)"
      then have "LENGTH('a) \<le> j" by simp
      with s(2) have "bit x (LENGTH('a) - Suc 0)"
        by (auto simp: bit_word_scast_iff dest: bit_imp_le_length)
      moreover have "LENGTH('a) - Suc 0 < j" using \<open>LENGTH('a) \<le> j\<close> by simp
      ultimately show False using s(3) low [of "LENGTH('a) - Suc 0"] by simp
    qed
    then show "bit x j \<and> (\<forall>i<j. \<not> bit x i)" using s low by auto
  next
    assume a: "bit x j \<and> (\<forall>i<j. \<not> bit x i)"
    then have "j < LENGTH('a)" by (auto dest: bit_imp_le_length)
    then have "j < 32 \<and> bit (scast x :: 32 word) j \<and> (\<forall>i<j. \<not> bit (scast x :: 32 word) i)"
      using a le low by auto
    then show "findFirstSet_signed x = Suc j"
      using True by (simp add: findFirstSet_signed_def ffs_def ffs_scan_Suc_iff)
  qed
next
  case False
  have le: "LENGTH('a) \<le> 64" by (rule assms)
  have low: "bit (scast x :: 64 word) i \<longleftrightarrow> bit x i" if "i < LENGTH('a)" for i
    using that le by (auto simp: bit_word_scast_iff)
  show ?thesis
  proof
    assume "findFirstSet_signed x = Suc j"
    then have s: "j < 64" "bit (scast x :: 64 word) j" "\<forall>i<j. \<not> bit (scast x :: 64 word) i"
      using False by (simp_all add: findFirstSet_signed_def ffsl_def ffs_scan_Suc_iff)
    have "j < LENGTH('a)"
    proof (rule ccontr)
      assume "\<not> j < LENGTH('a)"
      then have "LENGTH('a) \<le> j" by simp
      with s(2) have "bit x (LENGTH('a) - Suc 0)"
        by (auto simp: bit_word_scast_iff dest: bit_imp_le_length)
      moreover have "LENGTH('a) - Suc 0 < j" using \<open>LENGTH('a) \<le> j\<close> by simp
      ultimately show False using s(3) low [of "LENGTH('a) - Suc 0"] by simp
    qed
    then show "bit x j \<and> (\<forall>i<j. \<not> bit x i)" using s low by auto
  next
    assume a: "bit x j \<and> (\<forall>i<j. \<not> bit x i)"
    then have "j < LENGTH('a)" by (auto dest: bit_imp_le_length)
    then have "j < 64 \<and> bit (scast x :: 64 word) j \<and> (\<forall>i<j. \<not> bit (scast x :: 64 word) i)"
      using a le low by auto
    then show "findFirstSet_signed x = Suc j"
      using False by (simp add: findFirstSet_signed_def ffsl_def ffs_scan_Suc_iff)
  qed
qed

lemma findFirstSet_signed_zero_iff:
  fixes x :: "'a::len word"
  assumes "LENGTH('a) \<le> 64"
  shows "findFirstSet_signed x = 0 \<longleftrightarrow> x = 0"
proof
  assume z: "findFirstSet_signed x = 0"
  show "x = 0"
  proof (rule bit_word_eqI)
    fix i assume i: "i < LENGTH('a)"
    have "\<not> bit x i"
    proof (cases "LENGTH('a) - 1 \<le> 31")
      case True
      with z have "\<not> bit (scast x :: 32 word) i"
        using i by (simp add: findFirstSet_signed_def ffs_def ffs_scan_zero_iff)
      then show ?thesis using i True by (auto simp: bit_word_scast_iff)
    next
      case False
      with z have "\<not> bit (scast x :: 64 word) i"
        using i assms by (simp add: findFirstSet_signed_def ffsl_def ffs_scan_zero_iff)
      then show ?thesis using i assms by (auto simp: bit_word_scast_iff)
    qed
    then show "bit x i \<longleftrightarrow> bit (0 :: 'a word) i" by simp
  qed
next
  assume "x = 0"
  then show "findFirstSet_signed x = 0"
    by (simp add: findFirstSet_signed_def ffs_def ffsl_def ffs_scan_zero_iff)
qed

text \<open>
  C1. For an integral value \<open>x\<close> of width at most 64 bits, \<open>findFirstSet(x)\<close> is 0 when
  \<open>x\<close> is 0; otherwise it lies between 1 and the width, the bit at the 0-based position
  \<open>findFirstSet(x) - 1\<close> is set and all bits below it are clear. The overload for
  unsigned types returns what the overload for signed types returns on the same bit
  pattern.
\<close>

theorem findFirstSet_scalar:
  fixes x :: "'a::len word"
  assumes "LENGTH('a) \<le> 64"
  shows "findFirstSet_signed (0 :: 'a word) = 0 \<and>
         (x \<noteq> 0 \<longrightarrow>
            1 \<le> findFirstSet_signed x \<and> findFirstSet_signed x \<le> LENGTH('a) \<and>
            bit x (findFirstSet_signed x - 1) \<and>
            (\<forall>i < findFirstSet_signed x - 1. \<not> bit x i)) \<and>
         findFirstSet x = findFirstSet_signed x"
proof (intro conjI impI)
  show "findFirstSet_signed (0 :: 'a word) = 0"
    using assms by (simp add: findFirstSet_signed_zero_iff)
  show "findFirstSet x = findFirstSet_signed x"
    by (simp add: findFirstSet_def)
next
  assume "x \<noteq> 0"
  then have "findFirstSet_signed x \<noteq> 0"
    using assms by (simp add: findFirstSet_signed_zero_iff)
  then obtain j where j: "findFirstSet_signed x = Suc j"
    by (cases "findFirstSet_signed x") auto
  then have b: "bit x j" "\<forall>i<j. \<not> bit x i"
    using assms by (simp_all add: findFirstSet_signed_char)
  from b(1) have "j < LENGTH('a)" by (rule bit_imp_le_length)
  with j b show "1 \<le> findFirstSet_signed x" "findFirstSet_signed x \<le> LENGTH('a)"
    "bit x (findFirstSet_signed x - 1)" "\<forall>i < findFirstSet_signed x - 1. \<not> bit x i"
    by simp_all
qed

theorem findFirstSet_scalar_witness:
  "LENGTH(8) \<le> (64 :: nat) \<and> (12 :: 8 word) \<noteq> 0 \<and>
   findFirstSet (12 :: 8 word) = 3 \<and> findFirstSet_signed (12 :: 8 word) = 3 \<and>
   findFirstSet_signed (12 :: 8 word) \<le> LENGTH(8) \<and>
   bit (12 :: 8 word) (findFirstSet_signed (12 :: 8 word) - 1) \<and>
   \<not> bit (12 :: 8 word) 0 \<and> \<not> bit (12 :: 8 word) 1"
proof -
  have l: "LENGTH(8) \<le> (64 :: nat)" by simp
  have v: "findFirstSet_signed (12 :: 8 word) = 3" by code_simp
  from findFirstSet_scalar [OF l, of 12] v show ?thesis by simp
qed

section \<open>Properties of findLastSet on scalars\<close>

lemma clz_scan_le: "clz_scan n x \<le> n"
  by (induction n) auto

lemma clz_scan_top:
  assumes "\<exists>i<n. bit x i"
  shows "clz_scan n x < n \<and> bit x (n - clz_scan n x - 1) \<and>
         (\<forall>i. n - clz_scan n x \<le> i \<and> i < n \<longrightarrow> \<not> bit x i)"
  using assms
proof (induction n)
  case 0
  then show ?case by simp
next
  case (Suc n)
  show ?case
  proof (cases "bit x n")
    case True
    then show ?thesis by auto
  next
    case False
    with Suc.prems have "\<exists>i<n. bit x i"
      by (metis less_Suc_eq)
    from Suc.IH [OF this] False show ?thesis
      by (auto simp: less_Suc_eq Suc_diff_le clz_scan_le)
  qed
qed

lemma floorlog_2_eqI:
  assumes "2 ^ (r - 1) \<le> n" "n < 2 ^ r" "0 < r"
  shows "floorlog 2 n = r"
proof (rule antisym)
  show "floorlog 2 n \<le> r" using assms(2) by (simp add: floorlog_leI)
  show "r \<le> floorlog 2 n"
  proof (rule ccontr)
    assume "\<not> r \<le> floorlog 2 n"
    then have "floorlog 2 n \<le> r - 1" by simp
    then have "n < 2 ^ (r - 1)" by (rule floorlog_leD) simp
    with assms(1) show False by simp
  qed
qed

lemma nat_bits_bounds:
  fixes n :: nat
  assumes "bit n (r - 1)" "\<forall>i\<ge>r. \<not> bit n i" "0 < r"
  shows "2 ^ (r - 1) \<le> n \<and> n < 2 ^ r"
proof
  from assms(1) have "odd (n div 2 ^ (r - 1))" by (simp add: bit_iff_odd)
  then have "n div 2 ^ (r - 1) \<noteq> 0" by (metis even_zero)
  then show "2 ^ (r - 1) \<le> n" by (simp add: div_eq_0_iff not_less)
  have "take_bit r n = n"
    by (rule bit_eqI) (use assms(2) not_le_imp_less in \<open>auto simp: bit_take_bit_iff\<close>)
  then show "n < 2 ^ r" by (metis take_bit_nat_less_exp)
qed

lemma findLastSet_floorlog:
  fixes x :: "'a::len word"
  assumes "LENGTH('a) \<le> 64"
  shows "findLastSet x = floorlog 2 (unat x)"
proof (cases "x = 0")
  case True
  then show ?thesis by (simp add: findLastSet_def floorlog_def)
next
  case False
  then obtain k where k: "bit x k" by (auto simp: bit_eq_iff)
  then have kl: "k < LENGTH('a)" by (rule bit_imp_le_length)
  define m :: nat where "m = (if LENGTH('a) \<le> 32 then 32 else 64)"
  define c where "c = (if LENGTH('a) \<le> 32 then builtin_clz (ucast x) else builtin_clzl (ucast x))"
  define r where "r = m - c"
  have fls: "findLastSet x = r"
    using False by (simp add: findLastSet_def r_def m_def c_def)
  have lm: "LENGTH('a) \<le> m" using assms by (simp add: m_def)
  have top: "c < m \<and> bit (unat x) (m - c - 1) \<and> (\<forall>i. m - c \<le> i \<and> i < m \<longrightarrow> \<not> bit (unat x) i)"
  proof (cases "LENGTH('a) \<le> 32")
    case True
    have b: "bit (ucast x :: 32 word) i \<longleftrightarrow> bit (unat x) i" for i
      using True by (auto simp: bit_word_ucast_iff bit_unsigned_iff dest: bit_imp_le_length)
    have "\<exists>i<32. bit (ucast x :: 32 word) i"
      using k kl True by (auto simp: bit_word_ucast_iff intro!: exI [of _ k])
    from clz_scan_top [OF this] show ?thesis
      using True by (simp add: m_def c_def builtin_clz_def b)
  next
    case F: False
    have b: "bit (ucast x :: 64 word) i \<longleftrightarrow> bit (unat x) i" for i
      using assms by (auto simp: bit_word_ucast_iff bit_unsigned_iff dest: bit_imp_le_length)
    have "\<exists>i<64. bit (ucast x :: 64 word) i"
      using k kl assms by (auto simp: bit_word_ucast_iff intro!: exI [of _ k])
    from clz_scan_top [OF this] show ?thesis
      using F by (simp add: m_def c_def builtin_clzl_def b)
  qed
  have hi: "\<not> bit (unat x) i" if "m \<le> i" for i
    using that lm by (auto simp: bit_unsigned_iff dest: bit_imp_le_length)
  have "0 < r" using top by (simp add: r_def)
  moreover have "bit (unat x) (r - 1)" using top by (simp add: r_def)
  moreover have "\<forall>i\<ge>r. \<not> bit (unat x) i"
    using top hi by (metis r_def not_less)
  ultimately have "2 ^ (r - 1) \<le> unat x \<and> unat x < 2 ^ r"
    by (intro nat_bits_bounds) auto
  then have "floorlog 2 (unat x) = r" using \<open>0 < r\<close> by (intro floorlog_2_eqI) auto
  with fls show ?thesis by simp
qed

lemma findLastSetPortable_loop_eq:
  "x \<noteq> 0 \<Longrightarrow> findLastSetPortable_loop x r = r + floorlog 2 (unat x) - 1"
proof (induction x r rule: findLastSetPortable_loop.induct)
  case (1 x r)
  have fl: "floorlog 2 (unat x) = floorlog 2 (unat x div 2) + 1"
    using "1.prems" by (subst compute_floorlog) (simp add: unat_gt_0)
  have ux: "unat (drop_bit 1 x) = unat x div 2"
    by (simp add: drop_bit_eq_div unat_div)
  show ?case
  proof (cases "drop_bit 1 x = 0")
    case True
    then have "unat x div 2 = 0" using ux by simp 
    then have "floorlog 2 (unat x div 2) = 0" by (simp add: floorlog_def)
    with True fl show ?thesis
      by (subst findLastSetPortable_loop.simps) simp
  next
    case False
    from "1.IH" [OF refl False False]
    have "findLastSetPortable_loop (drop_bit 1 x) (r + 1) = r + 1 + floorlog 2 (unat x div 2) - 1"
      using ux by simp
    with False fl show ?thesis
      by (subst findLastSetPortable_loop.simps) (simp add: Let_def)
  qed
qed

lemma findLastSetPortable_floorlog: "findLastSetPortable x = floorlog 2 (unat x)"
proof (cases "x = 0")
  case True
  then show ?thesis
    by (simp add: findLastSetPortable_def floorlog_def findLastSetPortable_loop.simps)
next
  case False
  then have "0 < floorlog 2 (unat x)"
    by (subst compute_floorlog) (simp add: unat_gt_0)
  with False show ?thesis
    by (simp add: findLastSetPortable_def findLastSetPortable_loop_eq del: findLastSetPortable_loop.simps)
qed


text \<open>
  C2. For an integral value \<open>x\<close> of width at most 64 bits, \<open>findLastSet(x)\<close> is 0 when
  \<open>x\<close> is 0; for a nonzero unsigned \<open>x\<close> it is \<open>1 + floor(log2(x))\<close>; for a signed \<open>x\<close>
  it is \<open>findLastSet\<close> of the same bit pattern read as unsigned.
\<close>

theorem findLastSet_scalar:
  fixes x :: "'a::len word"
  assumes "LENGTH('a) \<le> 64"
  shows "findLastSet (0 :: 'a word) = 0 \<and> findLastSet_signed (0 :: 'a word) = 0 \<and>
         (x \<noteq> 0 \<longrightarrow>
            findLastSet x = 1 + nat \<lfloor>log 2 (real (unat x))\<rfloor> \<and>
            2 ^ (findLastSet x - 1) \<le> unat x \<and> unat x < 2 ^ findLastSet x) \<and>
         findLastSet_signed x = findLastSet x"
proof (intro conjI impI)
  show "findLastSet (0 :: 'a word) = 0" "findLastSet_signed (0 :: 'a word) = 0"
    by (simp_all add: findLastSet_signed_def findLastSet_def)
  show "findLastSet_signed x = findLastSet x"
    by (simp add: findLastSet_signed_def)
next
  assume "x \<noteq> 0"
  then have p: "0 < unat x" by (simp add: unat_gt_0)
  have f: "findLastSet x = floorlog 2 (unat x)"
    using assms by (rule findLastSet_floorlog)
  from p show "findLastSet x = 1 + nat \<lfloor>log 2 (real (unat x))\<rfloor>"
    by (simp add: f floorlog_def)
  from floorlog_bounds [of "unat x" 2] p
  show "2 ^ (findLastSet x - 1) \<le> unat x" "unat x < 2 ^ findLastSet x"
    by (simp_all add: f)
qed

theorem findLastSet_scalar_witness:
  "LENGTH(16) \<le> (64 :: nat) \<and> (256 :: 16 word) \<noteq> 0 \<and>
   findLastSet (256 :: 16 word) = 9 \<and>
   findLastSet (256 :: 16 word) = 1 + nat \<lfloor>log 2 (real (unat (256 :: 16 word)))\<rfloor> \<and>
   findLastSet_signed (256 :: 16 word) = 9"
proof -
  have l: "LENGTH(16) \<le> (64 :: nat)" by simp
  have v: "findLastSet (256 :: 16 word) = 9" by code_simp
  from findLastSet_scalar [OF l, of 256] v show ?thesis by simp
qed

lemma findLastSetPortable_examples:
  "findLastSetPortable 0 = 0" "findLastSetPortable 1 = 1" "findLastSetPortable 255 = 8"
  "findLastSetPortable 256 = 9" "findLastSetPortable 0xffffffffffffffff = 64"
  by code_simp+

text \<open>
  C9. For every \<open>uint64_t x\<close>, \<open>detail::findLastSetPortable(x)\<close> returns what the
  intrinsic-based \<open>findLastSet(x)\<close> returns: 0 when \<open>x\<close> is 0 and \<open>1 + floor(log2(x))\<close>
  otherwise. This part of the claim holds. The other part, that the build without
  intrinsics dispatches \<open>findLastSet\<close> to this fallback, fails on the source: the
  dispatching statement is ill-formed (a single colon in \<open>detail:findLastSetPortable\<close>),
  so that build has no \<open>findLastSet\<close> for unsigned types at all.
\<close>

theorem findLastSetPortable_agrees:
  fixes x :: "64 word"
  shows "findLastSetPortable x = findLastSet x \<and>
         findLastSetPortable x = (if x = 0 then 0 else 1 + nat \<lfloor>log 2 (real (unat x))\<rfloor>)"
proof (intro conjI)
  show "findLastSetPortable x = findLastSet x"
    by (simp add: findLastSetPortable_floorlog findLastSet_floorlog)
  show "findLastSetPortable x = (if x = 0 then 0 else 1 + nat \<lfloor>log 2 (real (unat x))\<rfloor>)"
    by (simp add: findLastSetPortable_floorlog floorlog_def unat_gt_0)
qed

section \<open>Properties of Endian\<close>

lemma bit_fold_or:
  "bit (fold (\<lambda>k acc. acc OR f k) ks (a :: 'a::len word)) j \<longleftrightarrow> bit a j \<or> (\<exists>k\<in>set ks. bit (f k) j)"
  by (induction ks arbitrary: a) (auto simp: bit_or_iff)

lemma bit_byte_lane:
  fixes x :: "'a::len word"
  shows "bit (push_bit (8 * q) (byte_at k x)) j \<longleftrightarrow>
           j < LENGTH('a) \<and> j div 8 = q \<and> bit x (8 * k + j mod 8)"
proof (cases "8 * q \<le> j \<and> j - 8 * q < 8")
  case True
  then have j: "j = 8 * q + (j - 8 * q)" by simp
  have d: "j div 8 = q" using True by (intro div_nat_eqI) auto
  have m: "j mod 8 = j - 8 * q" using d minus_mult_div_eq_mod [of j 8] by simp
  show ?thesis
    using True by (auto simp: byte_at_def bit_push_bit_iff bit_take_bit_iff bit_drop_bit_eq d m
        dest: bit_imp_le_length)
next
  case False
  have "8 * (j div 8) \<le> j" "j - 8 * (j div 8) < 8"
    by (simp_all add: minus_mult_div_eq_mod)
  with False have "j div 8 \<noteq> q" by auto
  with False show ?thesis
    by (auto simp: byte_at_def bit_push_bit_iff bit_take_bit_iff)
qed

lemma bit_byte_reverse:
  fixes x :: "'a::len word"
  shows "bit (byte_reverse n x) j \<longleftrightarrow>
           j < LENGTH('a) \<and> j < 8 * n \<and> bit x (8 * (n - 1 - j div 8) + j mod 8)"
proof -
  have *: "bit (byte_reverse n x) j \<longleftrightarrow>
        (\<exists>k<n. j < LENGTH('a) \<and> j div 8 = n - 1 - k \<and> bit x (8 * k + j mod 8))"
    unfolding byte_reverse_def bit_fold_or bit_byte_lane by auto
  show ?thesis
  proof
    assume "bit (byte_reverse n x) j"
    then obtain k where k: "k < n" "j < LENGTH('a)" "j div 8 = n - 1 - k" "bit x (8 * k + j mod 8)"
      using * by blast
    from k(1,3) have "k = n - 1 - j div 8" "j div 8 < n" by simp_all
    moreover from \<open>j div 8 < n\<close> have "j < 8 * n" by simp
    ultimately show "j < LENGTH('a) \<and> j < 8 * n \<and> bit x (8 * (n - 1 - j div 8) + j mod 8)"
      using k(2,4) by simp
  next
    assume a: "j < LENGTH('a) \<and> j < 8 * n \<and> bit x (8 * (n - 1 - j div 8) + j mod 8)"
    then have "j < n * 8" by simp
    then have "j div 8 < n" by (rule less_mult_imp_div_less)
    then have "n - 1 - j div 8 < n" "j div 8 = n - 1 - (n - 1 - j div 8)" by simp_all
    with a show "bit (byte_reverse n x) j"
      unfolding * by blast
  qed
qed

lemma byte_reverse_invol:
  fixes x :: "'a::len word"
  assumes "LENGTH('a) = 8 * n"
  shows "byte_reverse n (byte_reverse n x) = x"
proof (rule bit_word_eqI)
  fix j assume j: "j < LENGTH('a)"
  define q where "q = j div 8"
  define r where "r = j mod 8"
  have jq: "j = 8 * q + r" "r < 8" by (simp_all add: q_def r_def)
  have "j < n * 8" using j assms by simp
  then have qn: "q < n" unfolding q_def by (rule less_mult_imp_div_less)
  define j' where "j' = 8 * (n - 1 - q) + r"
  have d: "j' div 8 = n - 1 - q" and m: "j' mod 8 = r" using jq(2) by (simp_all add: j'_def)
  have l: "j' < 8 * n" using qn jq(2) by (simp add: j'_def)
  have e: "n - 1 - (n - 1 - q) = q" using qn by simp
  have "bit (byte_reverse n (byte_reverse n x)) j \<longleftrightarrow> bit (byte_reverse n x) j'"
    unfolding bit_byte_reverse [of n "byte_reverse n x" j] j'_def q_def r_def
    using j assms by simp
  also have "\<dots> \<longleftrightarrow> bit x (8 * q + r)"
    unfolding bit_byte_reverse [of n x j'] d m e using l assms by simp
  finally show "bit (byte_reverse n (byte_reverse n x)) j \<longleftrightarrow> bit x j"
    using jq(1) by simp
qed

lemma swap16_invol: "swap16 (swap16 x) = x"
  by (simp add: swap16_def bswap_16_def byte_reverse_invol)

lemma swap32_invol: "swap32 (swap32 x) = x"
  by (simp add: swap32_def bswap_32_def byte_reverse_invol)

lemma swap64_invol: "swap64 (swap64 x) = x"
  by (simp add: swap64_def bswap_64_def byte_reverse_invol)

lemma swap_examples:
  "swap16 0x1122 = 0x2211" "swap32 0x11223344 = 0x44332211"
  "swap64 0x1122334455667788 = 0x8877665544332211"
  by code_simp+

text \<open>
  C6. At each of the widths 8, 16, 32 and 64 (the signed and the unsigned type share
  their bit patterns), \<open>swap(swap(x)) = x\<close>; \<open>swap\<close> is the identity at width 8; on a
  little-endian host \<open>big(x) = swap(x)\<close> and \<open>little(x) = x\<close>; on a big-endian host
  \<open>big(x) = x\<close> and \<open>little(x) = swap(x)\<close>.
\<close>

theorem endian_swap_big_little:
  "swap8 (swap8 a) = a \<and> swap16 (swap16 b) = b \<and>
   swap32 (swap32 c) = c \<and> swap64 (swap64 d) = d \<and>
   swap8 a = a \<and>
   big8 LITTLE a = swap8 a \<and> big16 LITTLE b = swap16 b \<and>
   big32 LITTLE c = swap32 c \<and> big64 LITTLE d = swap64 d \<and>
   little8 LITTLE a = a \<and> little16 LITTLE b = b \<and>
   little32 LITTLE c = c \<and> little64 LITTLE d = d \<and>
   big8 BIG a = a \<and> big16 BIG b = b \<and> big32 BIG c = c \<and> big64 BIG d = d \<and>
   little8 BIG a = swap8 a \<and> little16 BIG b = swap16 b \<and>
   little32 BIG c = swap32 c \<and> little64 BIG d = swap64 d"
  by (simp add: swap16_invol swap32_invol swap64_invol swap8_def
      big8_def big16_def big32_def big64_def little8_def little16_def little32_def
      little64_def EndianInt_big_def EndianInt_little_def)

text \<open>
  C10. On either host byte order and at each width, \<open>big\<close> and \<open>little\<close> are
  involutions, and their composition in either order is \<open>swap\<close>.
\<close>

theorem endian_big_little_compose:
  "big8 order (big8 order a) = a \<and> little8 order (little8 order a) = a \<and>
   little8 order (big8 order a) = swap8 a \<and> big8 order (little8 order a) = swap8 a \<and>
   big16 order (big16 order b) = b \<and> little16 order (little16 order b) = b \<and>
   little16 order (big16 order b) = swap16 b \<and> big16 order (little16 order b) = swap16 b \<and>
   big32 order (big32 order c) = c \<and> little32 order (little32 order c) = c \<and>
   little32 order (big32 order c) = swap32 c \<and> big32 order (little32 order c) = swap32 c \<and>
   big64 order (big64 order d) = d \<and> little64 order (little64 order d) = d \<and>
   little64 order (big64 order d) = swap64 d \<and> big64 order (little64 order d) = swap64 d"
  by (cases order)
    (simp_all add: swap16_invol swap32_invol swap64_invol swap8_def
      big8_def big16_def big32_def big64_def little8_def little16_def little32_def
      little64_def EndianInt_big_def EndianInt_little_def)

section \<open>Properties of BitIterator\<close>

lemma sint_nonneg_eq_uint:
  fixes w :: "64 word"
  assumes "0 \<le> sint w"
  shows "uint w = sint w"
proof -
  have "sint w < 2 ^ (LENGTH(64) - 1)" by (rule sint_lt)
  then have "sint w < 2 ^ LENGTH(64)" by simp
  with assms have "take_bit LENGTH(64) (sint w) = sint w"
    by (intro take_bit_int_eq_self)
  then show ?thesis by (simp only: uint_sint)
qed

lemma sint_small:
  fixes w :: "64 word"
  assumes "uint w \<le> 128"
  shows "sint w = uint w"
proof -
  have "- (2 ^ 63) \<le> (0 :: int)" by simp
  also have "0 \<le> uint w" by simp
  finally have "- (2 ^ 63) \<le> uint w" .
  moreover have "uint w < 2 ^ 63"
  proof -
    note assms
    also have "(128 :: int) < 2 ^ 63" by simp
    finally show ?thesis .
  qed
  ultimately have "signed_take_bit 63 (uint w) = uint w"
    by (rule signed_take_bit_int_eq_self)
  then show ?thesis by (simp add: sint_uint)
qed

lemma uint_add_small:
  fixes a b :: "64 word"
  assumes "uint a \<le> 64" "uint b \<le> 64"
  shows "uint (a + b) = uint a + uint b"
proof -
  have "uint a + uint b < 2 ^ LENGTH(64)" using assms by simp
  then show ?thesis by (simp only: uint_add_lem)
qed

lemma offset_ok_iff:
  assumes "bpb \<le> 64"
  shows "offset_ok bpb it \<longleftrightarrow> bitOffset it < bpb"
proof -
  have b: "uint bpb \<le> 64" using assms by (simp add: word_le_def)
  show ?thesis
  proof
    assume ok: "offset_ok bpb it"
    then have "uint (bitOffset it) = sint (bitOffset it)"
      by (intro sint_nonneg_eq_uint) (simp add: offset_ok_def)
    with ok show "bitOffset it < bpb" by (simp add: offset_ok_def word_less_def)
  next
    assume "bitOffset it < bpb"
    then have u: "uint (bitOffset it) < uint bpb" by (simp add: word_less_def)
    with b have "uint (bitOffset it) \<le> 128" by simp
    then have "sint (bitOffset it) = uint (bitOffset it)" by (rule sint_small)
    with u show "offset_ok bpb it" by (simp add: offset_ok_def)
  qed
qed

lemma advance_offset:
  assumes "0 < bpb" "bpb \<le> 64" "bitOffset it < bpb"
  shows "bitOffset (advance bpb n it) < bpb"
proof -
  have b: "uint bpb \<le> 64" using assms(2) by (simp add: word_le_def)
  have o: "uint (bitOffset it) < uint bpb" using assms(3) by (simp add: word_less_def)
  have "n mod bpb < bpb" using assms(1) by (rule word_mod_less_divisor)
  then have m: "uint (n mod bpb) < uint bpb" by (simp add: word_less_def)
  have s: "uint (bitOffset it + n mod bpb) = uint (bitOffset it) + uint (n mod bpb)"
    using b o m by (intro uint_add_small) simp_all
  show ?thesis
  proof (cases "bpb \<le> bitOffset it + n mod bpb")
    case True
    then have "uint bpb \<le> uint (bitOffset it + n mod bpb)" by (simp add: word_le_def)
    then have "uint (bitOffset it + n mod bpb - bpb) = uint (bitOffset it + n mod bpb) - uint bpb"
      by (simp only: uint_sub_lem)
    with s o m have "uint (bitOffset it + n mod bpb - bpb) < uint bpb" by simp
    with True show ?thesis by (simp add: advance_def Let_def word_less_def)
  next
    case False
    then show ?thesis by (auto simp: advance_def Let_def)
  qed
qed

lemma increment_offset:
  assumes "0 < bpb" "bpb \<le> 64" "bitOffset it < bpb"
  shows "bitOffset (increment bpb it) < bpb"
proof -
  have b: "uint bpb \<le> 64" using assms(2) by (simp add: word_le_def)
  have o: "uint (bitOffset it) < uint bpb" using assms(3) by (simp add: word_less_def)
  have s: "uint (bitOffset it + 1) = uint (bitOffset it) + 1"
    using b o uint_add_small [of "bitOffset it" 1] by simp
  show ?thesis
  proof (cases "bitOffset it + 1 = bpb")
    case True
    then show ?thesis using assms(1) by (simp add: increment_def Let_def advanceToNextBlock_def)
  next
    case False
    then have "uint (bitOffset it + 1) \<noteq> uint bpb" by (simp add: word_uint_eq_iff)
    with s o have "uint (bitOffset it + 1) < uint bpb" by simp
    with False show ?thesis by (simp add: increment_def Let_def word_less_def)
  qed
qed

lemma decrement_offset:
  assumes "0 < bpb" "bpb \<le> 64" "bitOffset it < bpb"
  shows "bitOffset (decrement bpb it) < bpb"
proof (cases "bitOffset it = 0")
  case True
  have "uint (1 :: 64 word) \<le> uint bpb" using assms(1) by (simp add: word_less_def)
  then have "uint (bpb - 1) = uint bpb - uint (1 :: 64 word)" by (simp only: uint_sub_lem)
  then have "bpb - 1 < bpb" by (simp add: word_less_def)
  with True show ?thesis by (simp add: decrement_def)
next
  case False
  then have "uint (bitOffset it) \<noteq> 0" by (simp add: uint_0_iff)
  then have "1 \<le> uint (bitOffset it)" using uint_nonnegative [of "bitOffset it"] by linarith
  then have "uint (1 :: 64 word) \<le> uint (bitOffset it)" by simp
  then have "uint (bitOffset it - 1) = uint (bitOffset it) - uint (1 :: 64 word)"
    by (simp only: uint_sub_lem)
  moreover have "uint (bitOffset it) < uint bpb" using assms(3) by (simp add: word_less_def)
  ultimately have "bitOffset it - 1 < bpb" by (simp add: word_less_def)
  with False show ?thesis by (simp add: decrement_def)
qed


text \<open>
  C7. With a block width between 1 and 64 bits, the constructor at a valid offset,
  \<open>increment\<close>, \<open>decrement\<close>, \<open>advance\<close> (by any \<open>n\<close>) and \<open>advanceToNextBlock\<close> give
  iterators with \<open>0 \<le> bitOffset < bitsPerBlock\<close>; \<open>increment\<close> at the last bit of a
  block moves the base iterator forward by one and sets the offset to 0; \<open>decrement\<close>
  at offset 0 moves the base iterator back by one and sets the offset to
  \<open>bitsPerBlock - 1\<close>.
\<close>

theorem BitIterator_offset_invariant:
  assumes "0 < bpb" "bpb \<le> 64"
  shows "(off < bpb \<longrightarrow>
            mkBitIterator bpb iter off = Some \<lparr>base = iter, bitOffset = off\<rparr> \<and>
            offset_ok bpb \<lparr>base = iter, bitOffset = off\<rparr>) \<and>
         (offset_ok bpb it \<longrightarrow>
            offset_ok bpb (increment bpb it) \<and> offset_ok bpb (decrement bpb it) \<and>
            offset_ok bpb (advance bpb n it) \<and> offset_ok bpb (advanceToNextBlock it)) \<and>
         (bitOffset it = bpb - 1 \<longrightarrow>
            increment bpb it = \<lparr>base = base it + 1, bitOffset = 0\<rparr>) \<and>
         (bitOffset it = 0 \<longrightarrow>
            decrement bpb it = \<lparr>base = base it - 1, bitOffset = bpb - 1\<rparr>)"
proof (intro conjI impI)
  assume "off < bpb"
  then show "mkBitIterator bpb iter off = Some \<lparr>base = iter, bitOffset = off\<rparr>"
    by (simp add: mkBitIterator_def)
  from \<open>off < bpb\<close> show "offset_ok bpb \<lparr>base = iter, bitOffset = off\<rparr>"
    using assms(2) by (simp add: offset_ok_iff)
next
  assume "offset_ok bpb it"
  then have o: "bitOffset it < bpb" using assms(2) by (simp add: offset_ok_iff)
  show "offset_ok bpb (increment bpb it)"
    using assms o by (simp add: offset_ok_iff increment_offset)
  show "offset_ok bpb (decrement bpb it)"
    using assms o by (simp add: offset_ok_iff decrement_offset)
  show "offset_ok bpb (advance bpb n it)"
    using assms o by (simp add: offset_ok_iff advance_offset)
  show "offset_ok bpb (advanceToNextBlock it)"
    using assms by (simp add: offset_ok_iff advanceToNextBlock_def)
next
  assume "bitOffset it = bpb - 1"
  then show "increment bpb it = \<lparr>base = base it + 1, bitOffset = 0\<rparr>"
    by (simp add: increment_def Let_def advanceToNextBlock_def)
next
  assume "bitOffset it = 0"
  then show "decrement bpb it = \<lparr>base = base it - 1, bitOffset = bpb - 1\<rparr>"
    by (simp add: decrement_def)
qed

theorem BitIterator_offset_invariant_witness:
  "(0 :: 64 word) < 8 \<and> (8 :: 64 word) \<le> 64 \<and> (7 :: 64 word) < 8 \<and>
   mkBitIterator 8 3 7 = Some \<lparr>base = 3, bitOffset = 7\<rparr> \<and>
   offset_ok 8 \<lparr>base = 3, bitOffset = 7\<rparr> \<and>
   offset_ok 8 (increment 8 \<lparr>base = 3, bitOffset = 7\<rparr>) \<and>
   offset_ok 8 (decrement 8 \<lparr>base = 3, bitOffset = 7\<rparr>) \<and>
   offset_ok 8 (advance 8 (- 13) \<lparr>base = 3, bitOffset = 7\<rparr>) \<and>
   increment 8 \<lparr>base = 3, bitOffset = 7\<rparr> = \<lparr>base = 4, bitOffset = 0\<rparr> \<and>
   decrement 8 \<lparr>base = 4, bitOffset = 0\<rparr> = \<lparr>base = 3, bitOffset = 7\<rparr>"
proof -
  have a: "(0 :: 64 word) < 8" "(8 :: 64 word) \<le> 64" by simp_all
  have ok: "offset_ok 8 \<lparr>base = 3, bitOffset = 7\<rparr>"
    by (simp add: offset_ok_iff)
  from BitIterator_offset_invariant [OF a, of 7 3 "\<lparr>base = 3, bitOffset = 7\<rparr>" "- 13"]
    BitIterator_offset_invariant [OF a, of 7 3 "\<lparr>base = 4, bitOffset = 0\<rparr>" 0] ok
  show ?thesis by (simp add: offset_ok_iff)
qed

section \<open>Properties of nextPowTwo\<close>

lemma nat_bit_le: "2 ^ i \<le> n" if "bit n i" for n :: nat
proof -
  from that have "odd (n div 2 ^ i)" by (simp add: bit_iff_odd)
  then have "n div 2 ^ i \<noteq> 0" by (metis even_zero)
  then show ?thesis by (simp add: div_eq_0_iff not_less)
qed

lemma nat_less_pow: "n < 2 ^ r" if "\<forall>i\<ge>r. \<not> bit n i" for n :: nat
proof -
  have "take_bit r n = n"
    by (rule bit_eqI) (use that not_le_imp_less in \<open>auto simp: bit_take_bit_iff\<close>)
  then show ?thesis by (metis take_bit_nat_less_exp)
qed

lemma findLastSet_bits:
  fixes w :: "'a::len word"
  assumes "LENGTH('a) \<le> 64"
  shows "(\<exists>i\<ge>j. bit w i) \<longleftrightarrow> j < findLastSet w"
proof -
  define r where "r = findLastSet w"
  have r: "r = floorlog 2 (unat w)" using assms by (simp add: r_def findLastSet_floorlog)
  have b: "bit w i \<longleftrightarrow> bit (unat w) i" for i by (simp add: bit_unsigned_iff)
  show ?thesis unfolding r_def [symmetric]
  proof
    assume "\<exists>i\<ge>j. bit w i"
    then obtain i where i: "j \<le> i" "bit (unat w) i" using b by auto
    then have "2 ^ i \<le> unat w" by (intro nat_bit_le)
    then have p: "0 < unat w" by (metis less_le_trans zero_less_numeral zero_less_power)
    from floorlog_bounds [of "unat w" 2] p have "unat w < 2 ^ r" by (simp add: r)
    with \<open>2 ^ i \<le> unat w\<close> have "(2 :: nat) ^ i < 2 ^ r" by (rule le_less_trans)
    then have "i < r" by simp
    with i(1) show "j < r" by simp
  next
    assume jr: "j < r"
    then have p: "0 < unat w" by (simp add: r floorlog_def split: if_splits)
    from floorlog_bounds [of "unat w" 2] p have l: "2 ^ (r - 1) \<le> unat w" by (simp add: r)
    show "\<exists>i\<ge>j. bit w i"
    proof (rule ccontr)
      assume "\<not> (\<exists>i\<ge>j. bit w i)"
      then have "\<forall>i\<ge>j. \<not> bit (unat w) i" using b by simp
      then have "unat w < 2 ^ j" by (rule nat_less_pow)
      also have "(2 :: nat) ^ j \<le> 2 ^ (r - 1)" using jr by (intro power_increasing) simp_all
      finally show False using l by simp
    qed
  qed
qed

lemma findLastSet_le_length:
  fixes w :: "'a::len word"
  assumes "LENGTH('a) \<le> 64"
  shows "findLastSet w \<le> LENGTH('a)"
proof (rule ccontr)
  assume "\<not> findLastSet w \<le> LENGTH('a)"
  then have "LENGTH('a) < findLastSet w" by simp
  then obtain i where "LENGTH('a) \<le> i" "bit w i"
    using findLastSet_bits [OF assms, of "LENGTH('a)" w] by auto
  then show False by (auto dest: bit_imp_le_length)
qed

text \<open>
  A shift of the smearing whose count reaches the promoted width leaves \<open>v\<close> as it is,
  whether the out-of-range shift gives \<open>v\<close> (count modulo the width) or 0.
\<close>

lemma shr_in_range:
  "k < promoted_width v \<Longrightarrow> shr v k = drop_bit k v"
  by (simp add: shr_def)

lemma shr_out_of_range:
  fixes v :: "'a::len word"
  assumes "k mod promoted_width v = 0" "LENGTH('a) \<le> k"
  shows "v OR shr v k = v" and "v OR drop_bit k v = v"
proof -
  show "v OR shr v k = v" using assms(1) by (simp add: shr_def)
  have "drop_bit k v = 0"
    by (rule bit_word_eqI) (use assms(2) in \<open>auto simp: bit_drop_bit_eq dest: bit_imp_le_length\<close>)
  then show "v OR drop_bit k v = v" by simp
qed

lemma smeared_step:
  assumes "smeared w m v" "k \<le> m"
  shows "smeared w (m + k) (v OR drop_bit k v)"
  unfolding smeared_def
proof (intro allI iffI)
  fix j
  assume "bit (v OR drop_bit k v) j"
  then consider "bit v j" | "bit v (k + j)" by (auto simp: bit_or_iff bit_drop_bit_eq)
  then show "\<exists>d<m + k. bit w (j + d)"
  proof cases
    case 1
    then obtain d where "d < m" "bit w (j + d)" using assms(1) by (auto simp: smeared_def)
    then show ?thesis by (intro exI [of _ d]) simp
  next
    case 2
    then obtain d where "d < m" "bit w (k + j + d)" using assms(1) by (auto simp: smeared_def)
    then show ?thesis by (intro exI [of _ "k + d"]) (simp add: ac_simps)
  qed
next
  fix j
  assume "\<exists>d<m + k. bit w (j + d)"
  then obtain d where d: "d < m + k" "bit w (j + d)" by auto
  show "bit (v OR drop_bit k v) j"
  proof (cases "d < m")
    case True
    with d(2) have "bit v j" using assms(1) by (auto simp: smeared_def)
    then show ?thesis by (simp add: bit_or_iff)
  next
    case False
    then have "d - k < m" "k + j + (d - k) = j + d" using d(1) assms(2) by simp_all
    with d(2) have "bit v (k + j)" using assms(1) unfolding smeared_def by metis
    then show ?thesis by (simp add: bit_or_iff bit_drop_bit_eq)
  qed
qed

lemma smeared_0: "smeared w 1 w"
  by (simp add: smeared_def)

lemma smear_step_smeared:
  fixes w :: "'a::len word"
  shows "smeared w (promoted_width w) (smear_step 1 w)"
proof (cases "LENGTH('a) \<le> 32")
  case True
  then have pw: "promoted_width (x :: 'a word) = 32" for x by (simp add: promoted_width_def)
  note s = smeared_step [of w]
  have "smeared w 32 (smear_step 1 w)"
    unfolding smear_step_def Let_def shr_def pw
    using s [OF s [OF s [OF s [OF s [OF s [OF s [OF s [OF smeared_0, of 1], of 2], of 4], of 8], of 16], of 0], of 0], of 0]
    by simp
  then show ?thesis by (simp add: pw)
next
  case False
  then have pw: "promoted_width (x :: 'a word) = 64" for x by (simp add: promoted_width_def)
  note s = smeared_step [of w]
  have "smeared w 64 (smear_step 1 w)"
    unfolding smear_step_def Let_def shr_def pw
    using s [OF s [OF s [OF s [OF s [OF s [OF s [OF s [OF smeared_0, of 1], of 2], of 4], of 8], of 16], of 32], of 0], of 0]
    by simp
  then show ?thesis by (simp add: pw)
qed

lemma smear_step_bits:
  fixes w :: "'a::len word"
  assumes "LENGTH('a) \<le> 64"
  shows "bit (smear_step 1 w) j \<longleftrightarrow> j < findLastSet w"
proof -
  have l: "LENGTH('a) \<le> promoted_width w" using assms by (simp add: promoted_width_def)
  have "bit (smear_step 1 w) j \<longleftrightarrow> (\<exists>d<promoted_width w. bit w (j + d))"
    using smear_step_smeared [of w] by (simp add: smeared_def)
  also have "\<dots> \<longleftrightarrow> (\<exists>i\<ge>j. bit w i)"
  proof
    assume "\<exists>d<promoted_width w. bit w (j + d)"
    then obtain d where "bit w (j + d)" by auto
    then show "\<exists>i\<ge>j. bit w i" by (intro exI [of _ "j + d"]) simp
  next
    assume "\<exists>i\<ge>j. bit w i"
    then obtain i where i: "j \<le> i" "bit w i" by auto
    from i(2) have "i < LENGTH('a)" by (rule bit_imp_le_length)
    with l have "i - j < promoted_width w" by simp
    moreover have "bit w (j + (i - j))" using i by simp
    ultimately show "\<exists>d<promoted_width w. bit w (j + d)" by blast
  qed
  also have "\<dots> \<longleftrightarrow> j < findLastSet w" using assms by (rule findLastSet_bits)
  finally show ?thesis .
qed

lemma smear_step_plus_1:
  fixes w :: "'a::len word"
  assumes "LENGTH('a) \<le> 64"
  shows "smear_step 1 w + 1 = 2 ^ findLastSet w"
proof -
  have "smear_step 1 w = mask (findLastSet w)"
    by (rule bit_word_eqI) (simp add: smear_step_bits [OF assms] bit_mask_iff)
  then show ?thesis by (simp add: mask_eq_exp_minus_1)
qed

lemma smear_loop_once:
  fixes w :: "'a::len word"
  assumes "1 < LENGTH('a)" "LENGTH('a) \<le> 64"
  shows "smear_loop 1 w = Some (smear_step 1 w)"
proof -
  have "smear_loop 1 w = smear_loop (push_bit 8 1) (smear_step 1 w)"
    using assms(1) by (subst smear_loop.simps) simp
  also have "\<dots> = Some (smear_step 1 w)"
    using assms(2) by (subst smear_loop.simps) simp
  finally show ?thesis .
qed

lemma nextPowTwoPortable_eq:
  fixes v :: "'a::len word"
  assumes "1 < LENGTH('a)" "LENGTH('a) \<le> 64"
  shows "nextPowTwoPortable v = Some (if v = 0 then 1 else 2 ^ findLastSet (v - 1))"
  using assms by (simp add: nextPowTwoPortable_def smear_loop_once smear_step_plus_1)

lemma ucast_pow:
  assumes "LENGTH('a) \<le> 64"
  shows "(ucast (2 ^ r :: 64 word) :: 'a::len word) = 2 ^ r"
  by (rule bit_word_eqI) (use assms in \<open>auto simp: bit_word_ucast_iff bit_exp_iff\<close>)

lemma nextPowTwo_eq:
  fixes v :: "'a::len word"
  assumes "LENGTH('a) \<le> 64" "findLastSet (v - 1) < 64"
  shows "nextPowTwo v = Some (if v = 0 then 1 else 2 ^ findLastSet (v - 1))"
  using assms by (simp add: nextPowTwo_def shl_ul_def ucast_pow)

lemma findLastSet_pred_less:
  fixes v :: "'a::len word"
  assumes "LENGTH('a) \<le> 64" "v \<noteq> 0" "unat v \<le> 2 ^ k"
  shows "findLastSet (v - 1) \<le> k"
proof -
  have "unat (v - 1) = unat v - 1" using assms(2) by (simp add: unat_minus_one)
  moreover have "0 < unat v" using assms(2) by (simp add: unat_gt_0)
  ultimately have "unat (v - 1) < 2 ^ k" using assms(3) by simp
  then have "floorlog 2 (unat (v - 1)) \<le> k" by (simp add: floorlog_leI)
  then show ?thesis using assms(1) by (simp add: findLastSet_floorlog)
qed

lemma unat_pow2:
  assumes "r < LENGTH('a)"
  shows "unat (2 ^ r :: 'a::len word) = 2 ^ r"
  by (rule bit_eqI) (use assms in \<open>auto simp: bit_unsigned_iff bit_exp_iff\<close>)

lemma nextPowTwo_least:
  fixes v :: "'a::len word"
  assumes "LENGTH('a) \<le> 64" "unat v \<le> 2 ^ k" "k < LENGTH('a)"
  shows "\<exists>r. nextPowTwo v = Some r \<and>
           (\<exists>j. unat r = 2 ^ j) \<and>
           unat v \<le> unat r \<and>
           (\<forall>j. unat v \<le> 2 ^ j \<longrightarrow> unat r \<le> 2 ^ j) \<and>
           \<not> (\<exists>j. unat v < 2 ^ j \<and> 2 ^ j < unat r)"
proof (cases "v = 0")
  case True
  then have "nextPowTwo v = Some 1" by (simp add: nextPowTwo_def)
  moreover have "\<not> (2 :: nat) ^ j < 1" for j by simp
  ultimately show ?thesis using True by (auto intro: exI [of _ 0])
next
  case False
  define r where "r = findLastSet (v - 1)"
  have rk: "r \<le> k" unfolding r_def using assms(1) False assms(2) by (rule findLastSet_pred_less)
  with assms have r64: "r < 64" and rl: "r < LENGTH('a)" by simp_all
  have n: "nextPowTwo v = Some (2 ^ r)"
    using assms(1) r64 False by (simp add: nextPowTwo_eq r_def)
  have u: "unat (2 ^ r :: 'a word) = 2 ^ r" using rl by (simp add: unat_pow2)
  have p: "0 < unat v" using False by (simp add: unat_gt_0)
  have m: "unat (v - 1) = unat v - 1" using False by (simp add: unat_minus_one)
  have f: "r = floorlog 2 (unat v - 1)"
    using assms(1) by (simp add: r_def findLastSet_floorlog m)
  have le: "unat v \<le> 2 ^ r"
  proof (cases "unat v - 1 = 0")
    case True
    with p have "unat v = 1" by simp
    then show ?thesis by simp
  next
    case F: False
    with floorlog_bounds [of "unat v - 1" 2] have "unat v - 1 < 2 ^ r" by (simp add: f)
    then show ?thesis by simp
  qed
  have least: "2 ^ r \<le> (2 :: nat) ^ j" if "unat v \<le> 2 ^ j" for j
  proof -
    from that p have "unat v - 1 < 2 ^ j" by simp
    then have "r \<le> j" unfolding f by (simp add: floorlog_leI)
    then show ?thesis by (intro power_increasing) simp_all
  qed
  have "\<not> (unat v < 2 ^ j \<and> (2 :: nat) ^ j < 2 ^ r)" for j
    using least [of j] by auto
  with n u le least show ?thesis by auto
qed


text \<open>
  C4. For an unsigned \<open>v\<close> for which some power of two at least \<open>v\<close> is representable
  in its type, \<open>nextPowTwo(v)\<close> is a power of two, is at least \<open>v\<close>, is the least power
  of two that is at least \<open>v\<close>, and no power of two lies strictly between \<open>v\<close> and
  \<open>nextPowTwo(v)\<close>; \<open>nextPowTwo\<close> of 0, 1, 5, 8, 9 is 1, 1, 8, 8, 16.
\<close>

theorem nextPowTwo_smallest_power:
  fixes v :: "'a::len word"
  assumes "LENGTH('a) \<le> 64" "unat v \<le> 2 ^ k" "k < LENGTH('a)"
  shows "(\<exists>r. nextPowTwo v = Some r \<and>
            (\<exists>j. unat r = 2 ^ j) \<and>
            unat v \<le> unat r \<and>
            (\<forall>j. unat v \<le> 2 ^ j \<longrightarrow> unat r \<le> 2 ^ j) \<and>
            \<not> (\<exists>j. unat v < 2 ^ j \<and> 2 ^ j < unat r)) \<and>
         (nextPowTwo (0 :: 32 word) = Some 1 \<and> nextPowTwo (1 :: 32 word) = Some 1 \<and>
          nextPowTwo (5 :: 32 word) = Some 8 \<and> nextPowTwo (8 :: 32 word) = Some 8 \<and>
          nextPowTwo (9 :: 32 word) = Some 16) \<and>
         (nextPowTwo (0 :: 64 word) = Some 1 \<and> nextPowTwo (1 :: 64 word) = Some 1 \<and>
          nextPowTwo (5 :: 64 word) = Some 8 \<and> nextPowTwo (8 :: 64 word) = Some 8 \<and>
          nextPowTwo (9 :: 64 word) = Some 16) \<and>
         (nextPowTwo (0 :: 8 word) = Some 1 \<and> nextPowTwo (1 :: 8 word) = Some 1 \<and>
          nextPowTwo (5 :: 8 word) = Some 8 \<and> nextPowTwo (8 :: 8 word) = Some 8 \<and>
          nextPowTwo (9 :: 8 word) = Some 16)"
proof (intro conjI)
  show "nextPowTwo (0 :: 32 word) = Some 1" "nextPowTwo (1 :: 32 word) = Some 1"
    "nextPowTwo (5 :: 32 word) = Some 8" "nextPowTwo (8 :: 32 word) = Some 8"
    "nextPowTwo (9 :: 32 word) = Some 16"
    by code_simp+
  show "nextPowTwo (0 :: 64 word) = Some 1" "nextPowTwo (1 :: 64 word) = Some 1"
    "nextPowTwo (5 :: 64 word) = Some 8" "nextPowTwo (8 :: 64 word) = Some 8"
    "nextPowTwo (9 :: 64 word) = Some 16"
    by code_simp+
  show "nextPowTwo (0 :: 8 word) = Some 1" "nextPowTwo (1 :: 8 word) = Some 1"
    "nextPowTwo (5 :: 8 word) = Some 8" "nextPowTwo (8 :: 8 word) = Some 8"
    "nextPowTwo (9 :: 8 word) = Some 16"
    by code_simp+
  show "\<exists>r. nextPowTwo v = Some r \<and>
            (\<exists>j. unat r = 2 ^ j) \<and>
            unat v \<le> unat r \<and>
            (\<forall>j. unat v \<le> 2 ^ j \<longrightarrow> unat r \<le> 2 ^ j) \<and>
            \<not> (\<exists>j. unat v < 2 ^ j \<and> 2 ^ j < unat r)"
    using assms by (rule nextPowTwo_least)
qed

theorem nextPowTwo_smallest_power_witness:
  "LENGTH(16) \<le> (64 :: nat) \<and> unat (300 :: 16 word) \<le> 2 ^ 9 \<and> (9 :: nat) < LENGTH(16) \<and>
   nextPowTwo (300 :: 16 word) = Some 512 \<and>
   (\<exists>r. nextPowTwo (300 :: 16 word) = Some r \<and> (\<exists>j. unat r = 2 ^ j) \<and>
        unat (300 :: 16 word) \<le> unat r \<and>
        \<not> (\<exists>j. unat (300 :: 16 word) < 2 ^ j \<and> 2 ^ j < unat r))"
proof -
  have a: "LENGTH(16) \<le> (64 :: nat)" "unat (300 :: 16 word) \<le> 2 ^ 9" "(9 :: nat) < LENGTH(16)"
    by simp_all
  have v: "nextPowTwo (300 :: 16 word) = Some 512" by code_simp
  from nextPowTwo_smallest_power [OF a]
  have "\<exists>r. nextPowTwo (300 :: 16 word) = Some r \<and> (\<exists>j. unat r = 2 ^ j) \<and>
        unat (300 :: 16 word) \<le> unat r \<and>
        \<not> (\<exists>j. unat (300 :: 16 word) < 2 ^ j \<and> 2 ^ j < unat r)"
    by blast
  with a v show ?thesis by blast
qed


text \<open>
  At the \<open>uint64_t\<close> value \<open>2^63 + 1\<close> the portable path smears \<open>2^63\<close> to all ones and
  its increment wraps to 0, and the fast path shifts \<open>1ul\<close> by 64.
\<close>

lemma nextPowTwo_beyond_range:
  "nextPowTwoPortable (0x8000000000000001 :: 64 word) = Some 0"
  "nextPowTwo (0x8000000000000001 :: 64 word) = None"
proof -
  have f: "findLastSet (0x8000000000000000 :: 64 word) = 64" by code_simp
  then show "nextPowTwoPortable (0x8000000000000001 :: 64 word) = Some 0"
    by (simp add: nextPowTwoPortable_eq)
  from f show "nextPowTwo (0x8000000000000001 :: 64 word) = None"
    by (simp add: nextPowTwo_def shl_ul_def)
qed



section \<open>Properties of findFirstSet on a range of bits\<close>

lemma mask_from_eq: "(mask_from off :: 'a::len word) = NOT (mask (unat off))"
  by (simp add: mask_from_def mask_eq_exp_minus_1)

lemma mask_below_eq: "(mask_below off :: 'a::len word) = mask (unat off)"
  by (simp add: mask_below_def mask_eq_exp_minus_1)

lemma bit_and_mask_from:
  "bit (v AND (mask_from off :: 'a::len word)) i \<longleftrightarrow> bit v i \<and> unat off \<le> i"
  by (auto simp: mask_from_eq bit_and_iff bit_not_iff bit_mask_iff dest: bit_imp_le_length)

lemma bit_and_mask_below:
  "bit (v AND (mask_below off :: 'a::len word)) i \<longleftrightarrow> bit v i \<and> i < unat off"
  by (auto simp: mask_below_eq bit_and_iff bit_mask_iff dest: bit_imp_le_length)

lemma findFirstSet_zero_iff:
  fixes x :: "'a::len word"
  assumes "LENGTH('a) \<le> 64"
  shows "findFirstSet x = 0 \<longleftrightarrow> (\<forall>i. \<not> bit x i)"
proof -
  have "findFirstSet x = 0 \<longleftrightarrow> x = 0"
    using assms by (simp add: findFirstSet_def findFirstSet_signed_zero_iff)
  also have "x = 0 \<longleftrightarrow> (\<forall>i. \<not> bit x i)"
    by (auto simp: bit_eq_iff dest: bit_imp_le_length)
  finally show ?thesis .
qed

lemma findFirstSet_Suc_iff:
  fixes x :: "'a::len word"
  assumes "LENGTH('a) \<le> 64"
  shows "findFirstSet x = Suc j \<longleftrightarrow> bit x j \<and> (\<forall>i<j. \<not> bit x i)"
  using assms by (simp add: findFirstSet_def findFirstSet_signed_char)

lemma uint_of_nat_small:
  assumes "j \<le> 64"
  shows "uint (of_nat j :: 64 word) = int j"
proof -
  have "j < 2 ^ 64" using assms by simp
  then have "take_bit 64 j = j" by (simp only: take_bit_nat_eq_self_iff)
  then show ?thesis by (simp add: unsigned_of_nat)
qed

lemma found_at_Suc:
  fixes beginIt :: BitIterator
  assumes "w \<le> 64" "j < w" "uint (bitOffset beginIt) \<le> int j"
  shows "found_at (of_nat w) beginIt (Suc j) = Some (beginIt\<lparr>bitOffset := of_nat j\<rparr>)"
proof -
  have j: "uint (of_nat j :: 64 word) = int j" using assms by (intro uint_of_nat_small) simp
  have w: "uint (of_nat w :: 64 word) = int w" using assms by (intro uint_of_nat_small) simp
  have 1: "(of_nat (Suc j) :: 64 word) - 1 = of_nat j" by simp
  have 2: "bitOffset beginIt \<le> (of_nat j :: 64 word)"
    using assms(3) by (simp add: word_le_def j)
  have 3: "(of_nat j :: 64 word) < of_nat w"
    using assms(2) by (simp add: word_less_def j w)
  show ?thesis
    unfolding found_at_def Let_def 1 advanceInBlock_def using 2 3 by simp
qed

lemma base_le_of_position_le:
  fixes b e W x y :: int
  assumes "b * W + x \<le> e * W + y" "0 \<le> x" "0 \<le> y" "y < W"
  shows "b \<le> e"
proof (rule ccontr)
  assume "\<not> b \<le> e"
  then have "e + 1 \<le> b" by simp
  moreover have "0 \<le> W" using assms(3,4) by simp
  ultimately have "(e + 1) * W \<le> b * W" by (intro mult_right_mono)
  then have "e * W + W \<le> b * W" by (simp add: algebra_simps)
  with assms show False by simp
qed

lemma bit_at_block:
  fixes bs :: "'a::len word list"
  assumes "0 \<le> B" "B < int (length bs)" "i < LENGTH('a)"
  shows "bit_at bs (B * int LENGTH('a) + int i) \<longleftrightarrow> bit (bs ! nat B) i"
proof -
  let ?W = "int LENGTH('a)"
  have d: "(B * ?W + int i) div ?W = B" using assms(3) by simp
  have m: "(B * ?W + int i) mod ?W = int i" using assms(3) by simp
  have "B + 1 \<le> int (length bs)" using assms(2) by simp
  then have "(B + 1) * ?W \<le> int (length bs) * ?W" by (intro mult_right_mono) simp_all
  then have u: "B * ?W + int i < int (length bs) * ?W"
    using assms(3) by (simp add: algebra_simps)
  have l: "0 \<le> B * ?W + int i" using assms(1) by simp
  show ?thesis unfolding bit_at_def d m using u l by simp
qed

lemma block_range_unset:
  fixes bs :: "'a::len word list"
  assumes "0 \<le> B" "B < int (length bs)" "hi \<le> LENGTH('a)"
    and "\<forall>i. lo \<le> i \<and> i < hi \<longrightarrow> \<not> bit (bs ! nat B) i"
    and "B * int LENGTH('a) + int lo \<le> p" "p < B * int LENGTH('a) + int hi"
  shows "\<not> bit_at bs p"
proof -
  define k where "k = nat (p - B * int LENGTH('a))"
  have p: "p = B * int LENGTH('a) + int k" using assms(5) by (simp add: k_def)
  have k: "lo \<le> k" "k < hi" using assms(5,6) by (simp_all add: k_def)
  then have "k < LENGTH('a)" using assms(3) by simp
  with assms(1,2) have "bit_at bs p \<longleftrightarrow> bit (bs ! nat B) k"
    unfolding p by (rule bit_at_block)
  with assms(4) k show ?thesis by simp
qed

lemma first_set_in_found:
  fixes bs :: "'a::len word list"
  assumes "offset_ok (of_nat LENGTH('a)) r"
    and "bit_position LENGTH('a) beginIt \<le> bit_position LENGTH('a) r"
    and "bit_position LENGTH('a) r < bit_position LENGTH('a) endIt"
    and "bit_at bs (bit_position LENGTH('a) r)"
    and "\<forall>p. bit_position LENGTH('a) beginIt \<le> p \<and> p < bit_position LENGTH('a) r \<longrightarrow> \<not> bit_at bs p"
  shows "first_set_in bs beginIt endIt r"
proof -
  have "\<exists>p. bit_position LENGTH('a) beginIt \<le> p \<and> p < bit_position LENGTH('a) endIt \<and> bit_at bs p"
    using assms(2,3,4) by blast
  then show ?thesis unfolding first_set_in_def using assms by simp
qed

lemma first_set_in_none:
  fixes bs :: "'a::len word list"
  assumes "\<forall>p. bit_position LENGTH('a) beginIt \<le> p \<and> p < bit_position LENGTH('a) endIt \<longrightarrow> \<not> bit_at bs p"
  shows "first_set_in bs beginIt endIt endIt"
  unfolding first_set_in_def using assms by auto

lemma first_set_in_shift:
  fixes bs :: "'a::len word list"
  assumes f: "first_set_in bs beginIt' endIt r"
    and le: "bit_position LENGTH('a) beginIt \<le> bit_position LENGTH('a) beginIt'"
    and un: "\<forall>p. bit_position LENGTH('a) beginIt \<le> p \<and> p < bit_position LENGTH('a) beginIt' \<longrightarrow> \<not> bit_at bs p"
  shows "first_set_in bs beginIt endIt r"
proof (cases "\<exists>p. bit_position LENGTH('a) beginIt' \<le> p \<and> p < bit_position LENGTH('a) endIt \<and> bit_at bs p")
  case True
  with f have r: "offset_ok (of_nat LENGTH('a)) r"
    "bit_position LENGTH('a) beginIt' \<le> bit_position LENGTH('a) r"
    "bit_position LENGTH('a) r < bit_position LENGTH('a) endIt"
    "bit_at bs (bit_position LENGTH('a) r)"
    "\<forall>p. bit_position LENGTH('a) beginIt' \<le> p \<and> p < bit_position LENGTH('a) r \<longrightarrow> \<not> bit_at bs p"
    unfolding first_set_in_def by simp_all
  show ?thesis
  proof (rule first_set_in_found)
    show "offset_ok (of_nat LENGTH('a)) r" by (rule r(1))
    show "bit_position LENGTH('a) beginIt \<le> bit_position LENGTH('a) r" using le r(2) by simp
    show "bit_position LENGTH('a) r < bit_position LENGTH('a) endIt" by (rule r(3))
    show "bit_at bs (bit_position LENGTH('a) r)" by (rule r(4))
    show "\<forall>p. bit_position LENGTH('a) beginIt \<le> p \<and> p < bit_position LENGTH('a) r \<longrightarrow> \<not> bit_at bs p"
    proof (intro allI impI)
      fix p assume p: "bit_position LENGTH('a) beginIt \<le> p \<and> p < bit_position LENGTH('a) r"
      show "\<not> bit_at bs p"
      proof (cases "p < bit_position LENGTH('a) beginIt'")
        case True
        with p un show ?thesis by blast
      next
        case False
        with p r(5) show ?thesis by simp
      qed
    qed
  qed
next
  case False
  with f have "r = endIt" unfolding first_set_in_def by simp
  moreover have "\<forall>p. bit_position LENGTH('a) beginIt \<le> p \<and> p < bit_position LENGTH('a) endIt \<longrightarrow> \<not> bit_at bs p"
  proof (intro allI impI)
    fix p assume p: "bit_position LENGTH('a) beginIt \<le> p \<and> p < bit_position LENGTH('a) endIt"
    show "\<not> bit_at bs p"
    proof (cases "p < bit_position LENGTH('a) beginIt'")
      case True
      with p un show ?thesis by blast
    next
      case F: False
      with p False show ?thesis by auto
    qed
  qed
  ultimately show ?thesis by (simp add: first_set_in_none)
qed

lemma block_width_word:
  assumes "LENGTH('a::len) \<le> 64"
  shows "uint (of_nat LENGTH('a) :: 64 word) = int LENGTH('a)"
    and "(of_nat LENGTH('a) :: 64 word) \<le> 64"
    and "(0 :: 64 word) < of_nat LENGTH('a)"
proof -
  show u: "uint (of_nat LENGTH('a) :: 64 word) = int LENGTH('a)"
    using assms by (rule uint_of_nat_small)
  show "(of_nat LENGTH('a) :: 64 word) \<le> 64"
    using assms by (simp add: word_le_def u)
  show "(0 :: 64 word) < of_nat LENGTH('a)"
    by (simp add: word_less_def u)
qed

lemma found_in_block:
  fixes bs :: "'a::len word list"
  assumes len: "LENGTH('a) \<le> 64"
    and B: "0 \<le> base beginIt" "base beginIt < int (length bs)"
    and j: "bit (bs ! nat (base beginIt)) j" "unat (bitOffset beginIt) \<le> j"
      "\<forall>i. unat (bitOffset beginIt) \<le> i \<and> i < j \<longrightarrow> \<not> bit (bs ! nat (base beginIt)) i"
    and e: "base beginIt * int LENGTH('a) + int j < bit_position LENGTH('a) endIt"
  shows "found_at (of_nat LENGTH('a)) beginIt (Suc j) = Some (beginIt\<lparr>bitOffset := of_nat j\<rparr>)"
    and "first_set_in bs beginIt endIt (beginIt\<lparr>bitOffset := of_nat j\<rparr>)"
proof -
  let ?r = "beginIt\<lparr>bitOffset := of_nat j\<rparr>"
  have jl: "j < LENGTH('a)" using j(1) by (rule bit_imp_le_length)
  then have j64: "j \<le> 64" using len by simp
  have uj: "uint (of_nat j :: 64 word) = int j" using j64 by (rule uint_of_nat_small)
  have uo: "uint (bitOffset beginIt) = int (unat (bitOffset beginIt))" by (rule uint_nat)
  have j2: "uint (bitOffset beginIt) \<le> int j" using j(2) uo by linarith
  with len jl show "found_at (of_nat LENGTH('a)) beginIt (Suc j) = Some ?r"
    by (intro found_at_Suc)
  have pr: "bit_position LENGTH('a) ?r = base beginIt * int LENGTH('a) + int j"
    by (simp add: bit_position_def uj)
  have pb: "bit_position LENGTH('a) beginIt = base beginIt * int LENGTH('a) + uint (bitOffset beginIt)"
    by (simp add: bit_position_def)
  show "first_set_in bs beginIt endIt ?r"
  proof (rule first_set_in_found)
    have "(of_nat j :: 64 word) < of_nat LENGTH('a)"
      using jl by (simp add: word_less_def uj block_width_word(1) [OF len])
    then show "offset_ok (of_nat LENGTH('a)) ?r"
      using block_width_word(2) [OF len] by (simp add: offset_ok_iff)
    show "bit_position LENGTH('a) beginIt \<le> bit_position LENGTH('a) ?r"
      unfolding pr pb using j2 by simp
    show "bit_position LENGTH('a) ?r < bit_position LENGTH('a) endIt"
      unfolding pr by (rule e)
    show "bit_at bs (bit_position LENGTH('a) ?r)"
      unfolding pr using B jl j(1) by (simp add: bit_at_block)
    show "\<forall>p. bit_position LENGTH('a) beginIt \<le> p \<and> p < bit_position LENGTH('a) ?r \<longrightarrow> \<not> bit_at bs p"
      unfolding pr pb
    proof (intro allI impI)
      fix p
      assume p: "base beginIt * int LENGTH('a) + uint (bitOffset beginIt) \<le> p \<and>
        p < base beginIt * int LENGTH('a) + int j"
      show "\<not> bit_at bs p"
      proof (rule block_range_unset [OF B])
        show "j \<le> LENGTH('a)" using jl by simp
        show "\<forall>i. unat (bitOffset beginIt) \<le> i \<and> i < j \<longrightarrow> \<not> bit (bs ! nat (base beginIt)) i"
          by (rule j(3))
        show "base beginIt * int LENGTH('a) + int (unat (bitOffset beginIt)) \<le> p"
          using p uo by linarith
        show "p < base beginIt * int LENGTH('a) + int j" using p by simp
      qed
    qed
  qed
qed

lemma uint_less_width:
  assumes "LENGTH('a::len) \<le> 64" "off < (of_nat LENGTH('a) :: 64 word)"
  shows "uint off < int LENGTH('a)" "unat off < LENGTH('a)"
proof -
  show u: "uint off < int LENGTH('a)"
    using assms(2) by (simp add: word_less_def block_width_word(1) [OF assms(1)])
  show "unat off < LENGTH('a)" using u uint_nat [of off] by linarith
qed

lemma findFirstSet_range_same_block:
  fixes bs :: "'a::len word list"
  assumes len: "LENGTH('a) \<le> 64"
    and ob: "bitOffset beginIt < of_nat LENGTH('a)"
    and oe: "bitOffset endIt < of_nat LENGTH('a)"
    and b0: "0 \<le> base beginIt"
    and le: "bit_position LENGTH('a) beginIt \<le> bit_position LENGTH('a) endIt"
    and ub: "bit_position LENGTH('a) endIt \<le> int (length bs) * int LENGTH('a)"
    and same: "base beginIt = base endIt"
  shows "\<exists>r. findFirstSet_range bs beginIt endIt = Some r \<and> first_set_in bs beginIt endIt r"
proof (cases "bitOffset endIt = 0")
  case True
  then have "findFirstSet_range bs beginIt endIt = Some endIt"
    using same by (subst findFirstSet_range.simps) simp
  moreover have "first_set_in bs beginIt endIt endIt"
  proof (rule first_set_in_none, intro allI impI)
    fix p
    assume "bit_position LENGTH('a) beginIt \<le> p \<and> p < bit_position LENGTH('a) endIt"
    then have "bit_position LENGTH('a) beginIt < bit_position LENGTH('a) endIt" by simp
    then have "uint (bitOffset beginIt) < 0"
      using same True by (simp add: bit_position_def)
    then show "\<not> bit_at bs p" by simp
  qed
  ultimately show ?thesis by simp
next
  case False
  let ?B = "base beginIt"
  let ?W = "int LENGTH('a)"
  have ue: "uint (bitOffset endIt) < ?W" "unat (bitOffset endIt) < LENGTH('a)"
    using len oe by (rule uint_less_width)+
  have pe: "0 < uint (bitOffset endIt)"
    using False uint_nonnegative [of "bitOffset endIt"] uint_0_iff [of "bitOffset endIt"] by linarith
  have BL: "?B < int (length bs)"
  proof (rule ccontr)
    assume "\<not> ?B < int (length bs)"
    then have "int (length bs) \<le> base endIt" using same by simp
    then have "int (length bs) * ?W \<le> base endIt * ?W" by (intro mult_right_mono) simp_all
    moreover have "base endIt * ?W + uint (bitOffset endIt) \<le> int (length bs) * ?W"
      using ub by (simp add: bit_position_def)
    ultimately show False using pe by linarith
  qed
  then have d: "deref bs ?B = Some (bs ! nat ?B)" using b0 by (simp add: deref_def)
  have pb: "bit_position LENGTH('a) beginIt = ?B * ?W + uint (bitOffset beginIt)"
    by (simp add: bit_position_def)
  have pe': "bit_position LENGTH('a) endIt = ?B * ?W + uint (bitOffset endIt)"
    using same by (simp add: bit_position_def)
  define v where "v = (bs ! nat ?B AND mask_from (bitOffset beginIt)) AND mask_below (bitOffset endIt)"
  have bv: "bit v i \<longleftrightarrow> bit (bs ! nat ?B) i \<and> unat (bitOffset beginIt) \<le> i \<and> i < unat (bitOffset endIt)" for i
    by (simp add: v_def bit_and_mask_below bit_and_mask_from)
  have unf: "findFirstSet_range bs beginIt endIt =
      (if findFirstSet v \<noteq> 0 then found_at (of_nat LENGTH('a)) beginIt (findFirstSet v) else Some endIt)"
    using same False d by (subst findFirstSet_range.simps) (simp add: Let_def v_def)
  show ?thesis
  proof (cases "findFirstSet v")
    case 0
    then have "\<forall>i. \<not> bit v i" using len by (simp add: findFirstSet_zero_iff)
    then have un: "\<forall>i. unat (bitOffset beginIt) \<le> i \<and> i < unat (bitOffset endIt) \<longrightarrow> \<not> bit (bs ! nat ?B) i"
      using bv by blast
    have "first_set_in bs beginIt endIt endIt"
    proof (rule first_set_in_none, intro allI impI)
      fix p
      assume p: "bit_position LENGTH('a) beginIt \<le> p \<and> p < bit_position LENGTH('a) endIt"
      show "\<not> bit_at bs p"
      proof (rule block_range_unset [OF b0 BL _ un])
        show "unat (bitOffset endIt) \<le> LENGTH('a)" using ue(2) by simp
        show "?B * ?W + int (unat (bitOffset beginIt)) \<le> p"
          using p uint_nat [of "bitOffset beginIt"] unfolding pb by linarith
        show "p < ?B * ?W + int (unat (bitOffset endIt))"
          using p uint_nat [of "bitOffset endIt"] unfolding pe' by linarith
      qed
    qed
    with 0 unf show ?thesis by simp
  next
    case (Suc j)
    then have j: "bit v j" "\<forall>i<j. \<not> bit v i" using len by (simp_all add: findFirstSet_Suc_iff)
    from j(1) have j1: "bit (bs ! nat ?B) j" "unat (bitOffset beginIt) \<le> j" "j < unat (bitOffset endIt)"
      using bv by simp_all
    have j3: "\<forall>i. unat (bitOffset beginIt) \<le> i \<and> i < j \<longrightarrow> \<not> bit (bs ! nat ?B) i"
      using j(2) j1(3) bv by auto
    have e: "?B * ?W + int j < bit_position LENGTH('a) endIt"
      using j1(3) uint_nat [of "bitOffset endIt"] unfolding pe' by linarith
    from found_in_block [OF len b0 BL j1(1,2) j3 e] Suc unf show ?thesis by simp
  qed
qed

lemma findFirstSet_range_correct:
  fixes bs :: "'a::len word list"
  assumes len: "LENGTH('a) \<le> 64"
    and oe: "bitOffset endIt < of_nat LENGTH('a)"
    and ub: "bit_position LENGTH('a) endIt \<le> int (length bs) * int LENGTH('a)"
  shows "bitOffset beginIt < of_nat LENGTH('a) \<Longrightarrow> 0 \<le> base beginIt \<Longrightarrow>
         bit_position LENGTH('a) beginIt \<le> bit_position LENGTH('a) endIt \<Longrightarrow>
         \<exists>r. findFirstSet_range bs beginIt endIt = Some r \<and> first_set_in bs beginIt endIt r"
proof (induction n \<equiv> "nat (base endIt - base beginIt)" arbitrary: beginIt)
  case 0
  let ?W = "int LENGTH('a)"
  have "uint (bitOffset endIt) < ?W" using len oe by (rule uint_less_width)
  moreover have "base beginIt * ?W + uint (bitOffset beginIt) \<le> base endIt * ?W + uint (bitOffset endIt)"
    using "0.prems"(3) by (simp add: bit_position_def)
  ultimately have "base beginIt \<le> base endIt"
    by (intro base_le_of_position_le [of "base beginIt" ?W "uint (bitOffset beginIt)" "base endIt" "uint (bitOffset endIt)"]) simp_all
  with "0.hyps" have "base beginIt = base endIt" by simp
  with len "0.prems" oe ub show ?case by (intro findFirstSet_range_same_block)
next
  case (Suc n)
  let ?B = "base beginIt"
  let ?W = "int LENGTH('a)"
  let ?next = "advanceToNextBlock beginIt"
  have BE: "?B < base endIt" "?B \<noteq> base endIt" using Suc.hyps(2) by simp_all
  have ue: "uint (bitOffset endIt) < ?W" using len oe by (rule uint_less_width)
  have pe: "bit_position LENGTH('a) endIt = base endIt * ?W + uint (bitOffset endIt)"
    by (simp add: bit_position_def)
  have pb: "bit_position LENGTH('a) beginIt = ?B * ?W + uint (bitOffset beginIt)"
    by (simp add: bit_position_def)
  have pn: "bit_position LENGTH('a) ?next = ?B * ?W + ?W"
    by (simp add: bit_position_def advanceToNextBlock_def algebra_simps)
  have "base endIt * ?W + uint (bitOffset endIt) \<le> int (length bs) * ?W + 0"
    using ub pe by simp
  then have EL: "base endIt \<le> int (length bs)"
    by (rule base_le_of_position_le) simp_all
  with BE have BL: "?B < int (length bs)" by simp
  have b0: "0 \<le> ?B" by (rule Suc.prems(2))
  have "?B + 1 \<le> base endIt" using BE by simp
  then have "(?B + 1) * ?W \<le> base endIt * ?W" by (intro mult_right_mono) simp_all
  then have nE: "?B * ?W + ?W \<le> base endIt * ?W" by (simp add: algebra_simps)
  have d: "deref bs ?B = Some (bs ! nat ?B)" using b0 BL by (simp add: deref_def)
  define v where "v = bs ! nat ?B AND mask_from (bitOffset beginIt)"
  have bv: "bit v i \<longleftrightarrow> bit (bs ! nat ?B) i \<and> unat (bitOffset beginIt) \<le> i" for i
    by (simp add: v_def bit_and_mask_from)
  have unf: "findFirstSet_range bs beginIt endIt =
      (if findFirstSet v \<noteq> 0 then found_at (of_nat LENGTH('a)) beginIt (findFirstSet v)
       else findFirstSet_range bs ?next endIt)"
    using BE(2) d by (subst findFirstSet_range.simps) (simp add: Let_def v_def)
  show ?case
  proof (cases "findFirstSet v")
    case 0
    then have "\<forall>i. \<not> bit v i" using len by (simp add: findFirstSet_zero_iff)
    then have un: "\<forall>i. unat (bitOffset beginIt) \<le> i \<and> i < LENGTH('a) \<longrightarrow> \<not> bit (bs ! nat ?B) i"
      using bv by blast
    have "n = nat (base endIt - base ?next)"
      using Suc.hyps(2) by (simp add: advanceToNextBlock_def)
    moreover have "bitOffset ?next < of_nat LENGTH('a)"
      using block_width_word(3) [OF len] by (simp add: advanceToNextBlock_def)
    moreover have "0 \<le> base ?next" using b0 by (simp add: advanceToNextBlock_def)
    moreover have "bit_position LENGTH('a) ?next \<le> bit_position LENGTH('a) endIt"
      unfolding pn pe using nE uint_nonnegative [of "bitOffset endIt"] by linarith
    ultimately obtain r where r: "findFirstSet_range bs ?next endIt = Some r"
      "first_set_in bs ?next endIt r"
      using Suc.hyps(1) [of ?next] by blast
    have "first_set_in bs beginIt endIt r"
    proof (rule first_set_in_shift [OF r(2)])
      have "uint (bitOffset beginIt) < ?W" using len Suc.prems(1) by (rule uint_less_width)
      then show "bit_position LENGTH('a) beginIt \<le> bit_position LENGTH('a) ?next"
        unfolding pn pb by simp
      show "\<forall>p. bit_position LENGTH('a) beginIt \<le> p \<and> p < bit_position LENGTH('a) ?next \<longrightarrow> \<not> bit_at bs p"
      proof (intro allI impI)
        fix p
        assume p: "bit_position LENGTH('a) beginIt \<le> p \<and> p < bit_position LENGTH('a) ?next"
        show "\<not> bit_at bs p"
        proof (rule block_range_unset [OF b0 BL _ un])
          show "LENGTH('a) \<le> LENGTH('a)" by simp
          show "?B * ?W + int (unat (bitOffset beginIt)) \<le> p"
            using p uint_nat [of "bitOffset beginIt"] unfolding pb by linarith
          show "p < ?B * ?W + ?W" using p unfolding pn by simp
        qed
      qed
    qed
    with 0 unf r(1) show ?thesis by simp
  next
    case (Suc j)
    then have j: "bit v j" "\<forall>i<j. \<not> bit v i" using len by (simp_all add: findFirstSet_Suc_iff)
    from j(1) have j1: "bit (bs ! nat ?B) j" "unat (bitOffset beginIt) \<le> j"
      using bv by simp_all
    have j3: "\<forall>i. unat (bitOffset beginIt) \<le> i \<and> i < j \<longrightarrow> \<not> bit (bs ! nat ?B) i"
      using j(2) bv by auto
    have "j < LENGTH('a)" using j1(1) by (rule bit_imp_le_length)
    then have "?B * ?W + int j < ?B * ?W + ?W" by simp
    then have e: "?B * ?W + int j < bit_position LENGTH('a) endIt"
      unfolding pe using nE uint_nonnegative [of "bitOffset endIt"] by linarith
    from found_in_block [OF len b0 BL j1(1,2) j3 e] Suc unf show ?thesis by simp
  qed
qed

lemma position_determines_iterator:
  assumes "LENGTH('a::len) \<le> 64" "offset_ok (of_nat LENGTH('a)) r"
  shows "base r = bit_position LENGTH('a) r div int LENGTH('a)"
    and "uint (bitOffset r) = bit_position LENGTH('a) r mod int LENGTH('a)"
proof -
  have "bitOffset r < of_nat LENGTH('a)"
    using assms block_width_word(2) [OF assms(1)] by (simp add: offset_ok_iff)
  with assms(1) have u: "uint (bitOffset r) < int LENGTH('a)" by (rule uint_less_width)
  then show "base r = bit_position LENGTH('a) r div int LENGTH('a)"
    by (simp add: bit_position_def)
  from u show "uint (bitOffset r) = bit_position LENGTH('a) r mod int LENGTH('a)"
    by (simp add: bit_position_def)
qed

text \<open>
  C3. For a valid ordered range of bits over a sequence of unsigned blocks of at most
  64 bits each (both iterators keep their offset below the block width, \<open>begin\<close> is
  not after \<open>end\<close>, and \<open>end\<close> is at most one past the last bit of the sequence), the
  ranged \<open>findFirstSet\<close> returns; when some bit of the range is set it returns the
  iterator whose block and offset are those of the lowest set position of the range,
  and otherwise (also for an empty range) it returns \<open>end\<close>.
\<close>

theorem findFirstSet_range_first_set:
  fixes bs :: "'a::len word list"
  assumes "LENGTH('a) \<le> 64"
    and "offset_ok (of_nat LENGTH('a)) beginIt"
    and "offset_ok (of_nat LENGTH('a)) endIt"
    and "0 \<le> base beginIt"
    and "bit_position LENGTH('a) beginIt \<le> bit_position LENGTH('a) endIt"
    and "bit_position LENGTH('a) endIt \<le> int (length bs) * int LENGTH('a)"
  shows "\<exists>r. findFirstSet_range bs beginIt endIt = Some r \<and>
           (if \<exists>p. bit_position LENGTH('a) beginIt \<le> p \<and>
                  p < bit_position LENGTH('a) endIt \<and> bit_at bs p
            then bit_position LENGTH('a) beginIt \<le> bit_position LENGTH('a) r \<and>
                 bit_position LENGTH('a) r < bit_position LENGTH('a) endIt \<and>
                 bit_at bs (bit_position LENGTH('a) r) \<and>
                 (\<forall>p. bit_position LENGTH('a) beginIt \<le> p \<and>
                      p < bit_position LENGTH('a) r \<longrightarrow> \<not> bit_at bs p) \<and>
                 base r = bit_position LENGTH('a) r div int LENGTH('a) \<and>
                 uint (bitOffset r) = bit_position LENGTH('a) r mod int LENGTH('a)
            else r = endIt)"
proof -
  have w: "(of_nat LENGTH('a) :: 64 word) \<le> 64"
    using assms(1) by (rule block_width_word(2))
  have "bitOffset beginIt < of_nat LENGTH('a)" "bitOffset endIt < of_nat LENGTH('a)"
    using assms(2,3) w by (simp_all add: offset_ok_iff)
  with assms obtain r where r: "findFirstSet_range bs beginIt endIt = Some r"
    "first_set_in bs beginIt endIt r"
    using findFirstSet_range_correct [where bs = bs and endIt = endIt and beginIt = beginIt]
    by blast
  show ?thesis
  proof (cases "\<exists>p. bit_position LENGTH('a) beginIt \<le> p \<and>
      p < bit_position LENGTH('a) endIt \<and> bit_at bs p")
    case True
    with r(2) have f: "offset_ok (of_nat LENGTH('a)) r"
      "bit_position LENGTH('a) beginIt \<le> bit_position LENGTH('a) r"
      "bit_position LENGTH('a) r < bit_position LENGTH('a) endIt"
      "bit_at bs (bit_position LENGTH('a) r)"
      "\<forall>p. bit_position LENGTH('a) beginIt \<le> p \<and> p < bit_position LENGTH('a) r \<longrightarrow>
           \<not> bit_at bs p"
      unfolding first_set_in_def by simp_all
    from position_determines_iterator [OF assms(1) f(1)] f(2-5) r(1) True
    show ?thesis by simp
  next
    case False
    with r(2) have "r = endIt" unfolding first_set_in_def by simp
    with r(1) False show ?thesis by simp
  qed
qed

theorem findFirstSet_range_first_set_witness:
  "LENGTH(8) \<le> (64 :: nat) \<and>
   offset_ok (of_nat LENGTH(8)) \<lparr>base = 0, bitOffset = 3\<rparr> \<and>
   offset_ok (of_nat LENGTH(8)) \<lparr>base = 2, bitOffset = 5\<rparr> \<and>
   (0 :: int) \<le> base \<lparr>base = 0, bitOffset = 3\<rparr> \<and>
   bit_position LENGTH(8) \<lparr>base = 0, bitOffset = 3\<rparr>
     \<le> bit_position LENGTH(8) \<lparr>base = 2, bitOffset = 5\<rparr> \<and>
   bit_position LENGTH(8) \<lparr>base = 2, bitOffset = 5\<rparr>
     \<le> int (length [0, 0x10, 0xff :: 8 word]) * int LENGTH(8) \<and>
   findFirstSet_range [0, 0x10, 0xff :: 8 word]
     \<lparr>base = 0, bitOffset = 3\<rparr> \<lparr>base = 2, bitOffset = 5\<rparr> = Some \<lparr>base = 1, bitOffset = 4\<rparr> \<and>
   bit_position LENGTH(8) \<lparr>base = 1, bitOffset = 4\<rparr> = 12 \<and>
   bit_at [0, 0x10, 0xff :: 8 word] 12 \<and>
   (\<exists>r. findFirstSet_range [0, 0x10, 0xff :: 8 word]
          \<lparr>base = 0, bitOffset = 3\<rparr> \<lparr>base = 2, bitOffset = 5\<rparr> = Some r \<and>
        bit_at [0, 0x10, 0xff :: 8 word] (bit_position LENGTH(8) r))"
proof -
  let ?bs = "[0, 0x10, 0xff :: 8 word]"
  let ?b = "\<lparr>base = 0, bitOffset = 3\<rparr>"
  let ?e = "\<lparr>base = 2, bitOffset = 5\<rparr>"
  have a: "LENGTH(8) \<le> (64 :: nat)"
    "offset_ok (of_nat LENGTH(8)) ?b" "offset_ok (of_nat LENGTH(8)) ?e"
    "(0 :: int) \<le> base ?b"
    "bit_position LENGTH(8) ?b \<le> bit_position LENGTH(8) ?e"
    "bit_position LENGTH(8) ?e \<le> int (length ?bs) * int LENGTH(8)"
    by (simp_all add: offset_ok_iff bit_position_def)
  have v: "findFirstSet_range ?bs ?b ?e = Some \<lparr>base = 1, bitOffset = 4\<rparr>"
    by code_simp
  have p: "bit_position LENGTH(8) \<lparr>base = 1, bitOffset = 4\<rparr> = 12"
    by (simp add: bit_position_def)
  have s: "bit_at ?bs 12" by (simp add: bit_at_def)
  have "\<exists>p. bit_position LENGTH(8) ?b \<le> p \<and> p < bit_position LENGTH(8) ?e \<and> bit_at ?bs p"
    using s by (intro exI [of _ 12]) (simp add: bit_position_def)
  with findFirstSet_range_first_set [OF a]
  have "\<exists>r. findFirstSet_range ?bs ?b ?e = Some r \<and> bit_at ?bs (bit_position LENGTH(8) r)"
    by auto
  with a v p s show ?thesis by simp
qed

section \<open>Properties of BitIterator::advance\<close>

text \<open>
  With blocks of \<open>w\<close> bits, \<open>advance\<close> by a non-negative \<open>n\<close> adds \<open>n\<close> to the global
  position of the iterator and so gives the iterator that \<open>n\<close> increments give.
\<close>

lemma sint_eq_uint_below:
  fixes x :: "64 word"
  assumes "uint x < 2 ^ 63"
  shows "sint x = uint x"
proof -
  have "- (2 ^ 63) \<le> (0 :: int)" by simp
  also have "0 \<le> uint x" by simp
  finally have "- (2 ^ 63) \<le> uint x" .
  then have "signed_take_bit 63 (uint x) = uint x"
    using assms by (rule signed_take_bit_int_eq_self)
  then show ?thesis by (simp add: sint_uint)
qed

lemma width_word:
  assumes "0 < w" "w \<le> 64"
  shows "uint (of_nat w :: 64 word) = int w"
    and "(of_nat w :: 64 word) \<le> 64"
    and "(0 :: 64 word) < of_nat w"
proof -
  show u: "uint (of_nat w :: 64 word) = int w" using assms(2) by (rule uint_of_nat_small)
  show "(of_nat w :: 64 word) \<le> 64" using assms(2) by (simp add: word_le_def u)
  show "(0 :: 64 word) < of_nat w" using assms(1) by (simp add: word_less_def u)
qed

lemma increment_position:
  assumes "0 < w" "w \<le> 64" "bitOffset it < of_nat w"
  shows "bit_position w (increment (of_nat w) it) = bit_position w it + 1"
proof -
  note ww = width_word [OF assms(1,2)]
  have o: "uint (bitOffset it) < int w" using assms(3) by (simp add: word_less_def ww(1))
  have s: "uint (bitOffset it + 1) = uint (bitOffset it) + 1"
    using o assms(2) uint_add_small [of "bitOffset it" 1] by simp
  show ?thesis
  proof (cases "bitOffset it + 1 = of_nat w")
    case True
    then have "uint (bitOffset it) + 1 = int w" using s ww(1) by simp
    then have "base it * int w + int w = base it * int w + uint (bitOffset it) + 1" by simp
    with True show ?thesis
      by (simp add: increment_def Let_def advanceToNextBlock_def bit_position_def algebra_simps)
  next
    case False
    then show ?thesis
      using s by (simp add: increment_def Let_def bit_position_def)
  qed
qed

lemma increments_position:
  assumes "0 < w" "w \<le> 64"
  shows "bitOffset it < of_nat w \<Longrightarrow>
         bit_position w (increments k (of_nat w) it) = bit_position w it + int k \<and>
         bitOffset (increments k (of_nat w) it) < of_nat w"
proof (induction k arbitrary: it)
  case 0
  then show ?case by simp
next
  case (Suc k)
  note ww = width_word [OF assms]
  have "bitOffset (increment (of_nat w) it) < of_nat w"
    using ww(3) ww(2) Suc.prems by (rule increment_offset)
  from Suc.IH [OF this] increment_position [OF assms Suc.prems]
  show ?case by simp
qed

lemma advance_position:
  assumes "0 < w" "w \<le> 64" "bitOffset it < of_nat w" "0 \<le> sint n"
  shows "bit_position w (advance (of_nat w) n it) = bit_position w it + sint n"
proof -
  note ww = width_word [OF assms(1,2)]
  let ?bpb = "of_nat w :: 64 word"
  define N where "N = uint n"
  have Ns: "sint n = N" using assms(4) by (simp add: N_def sint_nonneg_eq_uint)
  have "sint n < 2 ^ (LENGTH(64) - 1)" by (rule sint_lt)
  then have N63: "N < 2 ^ 63" using Ns by simp
  have N0: "0 \<le> N" by (simp add: N_def)
  define q where "q = N div int w"
  define m where "m = N mod int w"
  have qm: "N = q * int w + m" by (simp add: q_def m_def)
  have m: "0 \<le> m" "m < int w" using assms(1) by (simp_all add: m_def)
  have q0: "0 \<le> q" using N0 assms(1) by (simp add: q_def pos_imp_zdiv_nonneg_iff)
  have "q * 1 \<le> q * int w" using q0 assms(1) by (intro mult_left_mono) simp_all
  then have qN: "q \<le> N" using qm m(1) by simp
  have uq: "uint (n div ?bpb) = q" by (simp add: uint_div_distrib ww(1) q_def N_def)
  have um: "uint (n mod ?bpb) = m" by (simp add: uint_mod_distrib ww(1) m_def N_def)
  have o: "uint (bitOffset it) < int w" using assms(3) by (simp add: word_less_def ww(1))
  have s: "uint (bitOffset it + n mod ?bpb) = uint (bitOffset it) + m"
    using o m assms(2) um uint_add_small [of "bitOffset it" "n mod ?bpb"] by simp
  show ?thesis
  proof (cases "?bpb \<le> bitOffset it + n mod ?bpb")
    case True
    then have ge: "int w \<le> uint (bitOffset it) + m" by (simp add: word_le_def ww(1) s)
    then have w2: "2 \<le> int w" using o m by linarith
    have "2 * q \<le> q * int w" using w2 q0 by (simp add: mult.commute mult_left_mono)
    also have "\<dots> \<le> N" using qm m(1) by simp
    finally have "2 * q < 2 ^ 63" using N63 by simp
    then have q62: "q + 1 < 2 ^ 63" by simp
    have "uint (n div ?bpb) + uint (1 :: 64 word) < 2 ^ LENGTH(64)" using q62 uq by simp
    then have "uint (n div ?bpb + 1) = uint (n div ?bpb) + uint (1 :: 64 word)"
      by (simp only: uint_add_lem)
    then have u1: "uint (n div ?bpb + 1) = q + 1" using uq by simp
    then have s1: "sint (n div ?bpb + 1) = q + 1" using q62 by (simp add: sint_eq_uint_below)
    have "uint ?bpb \<le> uint (bitOffset it + n mod ?bpb)" using True by (simp add: word_le_def)
    then have "uint (bitOffset it + n mod ?bpb - ?bpb) = uint (bitOffset it + n mod ?bpb) - uint ?bpb"
      by (simp only: uint_sub_lem)
    then have u2: "uint (bitOffset it + n mod ?bpb - ?bpb) = uint (bitOffset it) + m - int w"
      by (simp add: s ww(1))
    have "bit_position w (advance ?bpb n it) = (base it + (q + 1)) * int w + (uint (bitOffset it) + m - int w)"
      using True by (simp add: advance_def Let_def bit_position_def s1 u2)
    also have "\<dots> = base it * int w + uint (bitOffset it) + (q * int w + m)"
      by (simp add: algebra_simps)
    finally show ?thesis by (simp add: bit_position_def Ns qm)
  next
    case False
    have "q < 2 ^ 63" using qN N63 by simp
    then have s1: "sint (n div ?bpb) = q" using uq by (simp add: sint_eq_uint_below)
    have "bit_position w (advance ?bpb n it) = (base it + q) * int w + (uint (bitOffset it) + m)"
      using False by (simp add: advance_def Let_def bit_position_def s1 s)
    also have "\<dots> = base it * int w + uint (bitOffset it) + (q * int w + m)"
      by (simp add: algebra_simps)
    finally show ?thesis by (simp add: bit_position_def Ns qm)
  qed
qed

lemma iterator_eqI:
  fixes a b :: BitIterator
  assumes "0 < w" "w \<le> 64" "bitOffset a < of_nat w" "bitOffset b < of_nat w"
    and "bit_position w a = bit_position w b"
  shows "a = b"
proof -
  note ww = width_word [OF assms(1,2)]
  have ua: "uint (bitOffset a) < int w" using assms(3) by (simp add: word_less_def ww(1))
  have ub: "uint (bitOffset b) < int w" using assms(4) by (simp add: word_less_def ww(1))
  have w0: "0 < int w" using assms(1) by simp
  have "base a = bit_position w a div int w" using ua w0 by (simp add: bit_position_def)
  moreover have "base b = bit_position w b div int w" using ub w0 by (simp add: bit_position_def)
  moreover have "uint (bitOffset a) = bit_position w a mod int w"
    using ua w0 by (simp add: bit_position_def)
  moreover have "uint (bitOffset b) = bit_position w b mod int w"
    using ub w0 by (simp add: bit_position_def)
  ultimately have "base a = base b" "uint (bitOffset a) = uint (bitOffset b)"
    using assms(5) by simp_all
  then show ?thesis by (simp add: word_uint_eq_iff)
qed

lemma advance_nonnegative:
  assumes "0 < w" "w \<le> 64" "bitOffset it < of_nat w" "0 \<le> sint n"
  shows "advance (of_nat w) n it = increments (nat (sint n)) (of_nat w) it"
proof (rule iterator_eqI [OF assms(1,2)])
  note ww = width_word [OF assms(1,2)]
  show "bitOffset (advance (of_nat w) n it) < of_nat w"
    using ww(3) ww(2) assms(3) by (rule advance_offset)
  show "bitOffset (increments (nat (sint n)) (of_nat w) it) < of_nat w"
    using increments_position [OF assms(1,2,3)] by simp
  show "bit_position w (advance (of_nat w) n it) =
        bit_position w (increments (nat (sint n)) (of_nat w) it)"
    using increments_position [OF assms(1,2,3), of "nat (sint n)"] advance_position [OF assms]
      assms(4) by simp
qed

text \<open>
  C5. \<open>advance(n)\<close> is claimed to give the iterator that \<open>n\<close> increments give, or
  \<open>-n\<close> decrements when \<open>n\<close> is negative. With 8-bit blocks, \<open>advance(-1)\<close> from bit
  0 of block 1 divides the \<open>ssize_t\<close> \<open>-1\<close> by the \<open>size_t\<close> 8 as the unsigned number
  \<open>2^64 - 1\<close>: the offset becomes 7, as it should, but the base iterator is moved
  forward by \<open>2^61 - 1\<close> blocks, where one decrement moves it back by one block.
\<close>

theorem advance_negative_moves_forward:
  "advance 8 (- 1) \<lparr>base = 1, bitOffset = 0\<rparr> = \<lparr>base = 2 ^ 61, bitOffset = 7\<rparr> \<and>
   decrements 1 8 \<lparr>base = 1, bitOffset = 0\<rparr> = \<lparr>base = 0, bitOffset = 7\<rparr> \<and>
   advance 8 (- 1) \<lparr>base = 1, bitOffset = 0\<rparr> \<noteq> decrements 1 8 \<lparr>base = 1, bitOffset = 0\<rparr>"
  by (simp add: advance_def Let_def decrement_def)

end
